theory Spec2Isabelle
  imports Complex_Main "HOL-Library.Product_Lexorder"
begin

section \<open>Conventions\<close>

text \<open>
  The development embeds the Python sources \<^verbatim>\<open>point.py\<close>, \<^verbatim>\<open>event.py\<close>,
  \<^verbatim>\<open>line_segment.py\<close>, \<^verbatim>\<open>parabolic_arc.py\<close>, \<^verbatim>\<open>event_priority_queue.py\<close> and
  \<^verbatim>\<open>voronoi.py\<close>.

  Python floats are modelled by the reals: arithmetic is exact, there is no overflow,
  no NaN and no infinity. Every raise of the source is a value of the type \<open>error\<close>.
  Field names carry a prefix of their class (\<open>pt_x\<close> is \<^verbatim>\<open>Point.x\<close>, \<open>ev_x\<close> is
  \<^verbatim>\<open>Event.x\<close>, \<open>seg_done\<close> is \<^verbatim>\<open>LineSegment.done\<close>), everything else keeps the
  name it has in the source.
\<close>

datatype error = KeyError | ZeroDivisionError | ValueError | AttributeError | StopIteration

section \<open>point.py\<close>

record point =
  pt_x :: real
  pt_y :: real

text \<open>
  \<^verbatim>\<open>float(f"{x:.1f}")\<close>: the nearest multiple of one tenth. Python formats the exact
  value of the float and resolves an exact tie to the even digit.
\<close>

definition round1 :: "real \<Rightarrow> real" where
  "round1 v =
     (let t = v * 10; f = \<lfloor>t\<rfloor>; d = t - of_int f
      in (if d < 1 / 2 then of_int f
          else if 1 / 2 < d then of_int (f + 1)
          else if even f then of_int f else of_int (f + 1)) / 10)"

definition Point :: "real \<Rightarrow> real \<Rightarrow> point" where
  "Point a b = \<lparr>pt_x = round1 a, pt_y = round1 b\<rparr>"


section \<open>event.py\<close>

text \<open>
  An \<^verbatim>\<open>Event\<close> is built in one place only, \<^verbatim>\<open>Event(x, o, i)\<close>, with an arc \<open>i\<close>.
  Arcs live in a store and are named by their address, so \<open>ev_a\<close> is an address.
  The field \<^verbatim>\<open>valid\<close> is the one field that is mutated, through the alias held by the
  arc; it is kept in the engine's state, indexed by the identity \<open>ev_id\<close> of the object.
\<close>

record event =
  ev_x :: real
  ev_p :: point
  ev_a :: nat
  ev_id :: nat

section \<open>event\_priority\_queue.py\<close>

text \<open>The queue holds \<^verbatim>\<open>Union[Point, Event]\<close>.\<close>

datatype item = PointItem point | EventItem event

fun item_x :: "item \<Rightarrow> real" where
  "item_x (PointItem p) = pt_x p"
| "item_x (EventItem e) = ev_x e"

text \<open>
  Dictionary keys are compared with \<^verbatim>\<open>__eq__\<close> and \<^verbatim>\<open>__hash__\<close>: a point by
  \<open>(x, y)\<close>, an event by \<open>(x, p)\<close>, and a point never equals an event.
\<close>

datatype item_key = PointKey real real | EventKey real point

fun key_of :: "item \<Rightarrow> item_key" where
  "key_of (PointItem p) = PointKey (pt_x p) (pt_y p)"
| "key_of (EventItem e) = EventKey (ev_x e) (ev_p e)"

text \<open>
  A heap entry is the list \<^verbatim>\<open>[item.x, counter, item]\<close>; \<open>None\<close> in the last place is
  the marker \<^verbatim>\<open>'<removed>'\<close>. An entry is shared by the heap and by the dictionary and is
  mutated through the dictionary; the counter of an entry is unique, so the dictionary
  holds the counter as the address of its entry.
\<close>

record entry =
  en_x :: real
  en_count :: nat
  en_item :: "item option"

text \<open>
  \<^verbatim>\<open>_entry_finder\<close> is a Python dictionary, which iterates in insertion order: an
  association list.
\<close>

type_synonym entry_finder = "(item \<times> nat) list"

definition ef_member :: "item \<Rightarrow> entry_finder \<Rightarrow> bool" where
  "ef_member it ef = (key_of it \<in> set (map (key_of \<circ> fst) ef))"

definition ef_get :: "item \<Rightarrow> entry_finder \<Rightarrow> nat option" where
  "ef_get it ef = map_of (map (\<lambda>(j, c). (key_of j, c)) ef) (key_of it)"

definition ef_del :: "item \<Rightarrow> entry_finder \<Rightarrow> entry_finder" where
  "ef_del it ef = filter (\<lambda>(j, c). key_of j \<noteq> key_of it) ef"

definition ef_set :: "item \<Rightarrow> nat \<Rightarrow> entry_finder \<Rightarrow> entry_finder" where
  "ef_set it c ef =
     (if ef_member it ef
      then map (\<lambda>(j, c'). if key_of j = key_of it then (j, c) else (j, c')) ef
      else ef @ [(it, c)])"

record equeue =
  queue :: "entry list"
  entry_finder :: entry_finder
  counter :: nat

definition EventPriorityQueue :: equeue where
  "EventPriorityQueue = \<lparr>queue = [], entry_finder = [], counter = 0\<rparr>"

text \<open>
  \<^verbatim>\<open>heapq\<close> is the standard library's binary heap. It is modelled by its contract:
  the heap is the list of its entries in ascending order, \<^verbatim>\<open>heappop\<close> takes the least
  entry. Entries are compared as Python lists, first by \<open>x\<close>, then by the counter.
\<close>

definition entry_key :: "entry \<Rightarrow> real \<times> nat" where
  "entry_key e = (en_x e, en_count e)"

definition heappush :: "entry list \<Rightarrow> entry \<Rightarrow> entry list" where
  "heappush h e = insort_key entry_key e h"

text \<open>\<^verbatim>\<open>empty\<close> and \<^verbatim>\<open>top\<close> are \<open>empty_q\<close> and \<open>top_q\<close> here.\<close>

definition empty_q :: "equeue \<Rightarrow> bool" where
  "empty_q q = (entry_finder q = [])"

text \<open>\<^verbatim>\<open>remove\<close>: \<^verbatim>\<open>dict.pop\<close> raises KeyError on a missing key.\<close>

definition mark_removed :: "nat \<Rightarrow> entry list \<Rightarrow> entry list" where
  "mark_removed c h = map (\<lambda>e. if en_count e = c then e\<lparr>en_item := None\<rparr> else e) h"

definition remove :: "item \<Rightarrow> equeue \<Rightarrow> error + equeue" where
  "remove it q =
     (case ef_get it (entry_finder q) of
        None \<Rightarrow> Inl KeyError
      | Some c \<Rightarrow> Inr (q\<lparr>entry_finder := ef_del it (entry_finder q),
                          queue := mark_removed c (queue q)\<rparr>))"

text \<open>
  \<^verbatim>\<open>push\<close> calls \<^verbatim>\<open>remove\<close> under the guard \<^verbatim>\<open>item in self._entry_finder\<close>; an error
  of \<^verbatim>\<open>remove\<close> would propagate.
\<close>

definition push :: "item \<Rightarrow> equeue \<Rightarrow> error + equeue" where
  "push it q =
     (case (if ef_member it (entry_finder q) then remove it q else Inr q) of
        Inl err \<Rightarrow> Inl err
      | Inr q1 \<Rightarrow>
          (let c = counter q1 + 1;
               en = \<lparr>en_x = item_x it, en_count = c, en_item = Some it\<rparr>
           in Inr (q1\<lparr>counter := c,
                       entry_finder := ef_set it c (entry_finder q1),
                       queue := heappush (queue q1) en\<rparr>)))"

text \<open>
  \<^verbatim>\<open>pop\<close>: the loop \<^verbatim>\<open>while self._queue\<close> pops entries until one is not removed;
  falling out of the loop returns \<^verbatim>\<open>None\<close>. \<^verbatim>\<open>del\<close> raises KeyError on a missing key.
\<close>

fun pop_loop :: "entry list \<Rightarrow> entry_finder \<Rightarrow> error + (item option \<times> entry list \<times> entry_finder)" where
  "pop_loop [] ef = Inr (None, [], ef)"
| "pop_loop (e # h) ef =
     (case en_item e of
        None \<Rightarrow> pop_loop h ef
      | Some it \<Rightarrow> (if ef_member it ef then Inr (Some it, h, ef_del it ef) else Inl KeyError))"

definition pop :: "equeue \<Rightarrow> error + (item option \<times> equeue)" where
  "pop q =
     (case pop_loop (queue q) (entry_finder q) of
        Inl err \<Rightarrow> Inl err
      | Inr (r, h, ef) \<Rightarrow> Inr (r, q\<lparr>queue := h, entry_finder := ef\<rparr>))"

text \<open>\<^verbatim>\<open>top\<close>: the same loop, and the item found is pushed again.\<close>

fun top_loop :: "entry list \<Rightarrow> item option \<times> entry list" where
  "top_loop [] = (None, [])"
| "top_loop (e # h) = (case en_item e of None \<Rightarrow> top_loop h | Some it \<Rightarrow> (Some it, h))"

definition top_q :: "equeue \<Rightarrow> error + (item option \<times> equeue)" where
  "top_q q =
     (case top_loop (queue q) of
        (None, h) \<Rightarrow> Inr (None, q\<lparr>queue := h\<rparr>)
      | (Some it, h) \<Rightarrow>
          (case push it (q\<lparr>queue := h\<rparr>) of
             Inl err \<Rightarrow> Inl err
           | Inr q' \<Rightarrow> Inr (Some it, q')))"

text \<open>
  \<^verbatim>\<open>Voronoi._add_points\<close> pushes \<^verbatim>\<open>Point(x, y)\<close> for every input pair; this is its loop
  on the queue \<^verbatim>\<open>self.points\<close>.
\<close>

fun add_points_loop :: "(real \<times> real) list \<Rightarrow> equeue \<Rightarrow> error + equeue" where
  "add_points_loop [] q = Inr q"
| "add_points_loop ((a, b) # ps) q =
     (case push (PointItem (Point a b)) q of Inl err \<Rightarrow> Inl err | Inr q' \<Rightarrow> add_points_loop ps q')"

section \<open>Queue: the sequence of pops\<close>

text \<open>
  \<open>live\<close> lists the items of the heap entries that are not marked removed, in heap
  order. \<open>pop_all\<close> calls \<open>pop\<close> until it returns \<open>None\<close> (or raises) and collects the
  items: the sequence a caller of \<^verbatim>\<open>pop()\<close> observes. \<open>reachable\<close> are the states that
  the methods of the class produce from the empty queue.
\<close>

fun live :: "entry list \<Rightarrow> item list" where
  "live [] = []"
| "live (e # h) = (case en_item e of None \<Rightarrow> live h | Some it \<Rightarrow> it # live h)"

lemma live_append [simp]: "live (xs @ ys) = live xs @ live ys"
  by (induction xs) (auto split: option.splits)

lemma pop_loop_length:
  "pop_loop h ef = Inr (Some it, h', ef') \<Longrightarrow> length h' < length h"
  by (induction h) (auto split: option.splits if_splits)

function pop_all :: "equeue \<Rightarrow> item list" where
  "pop_all q = (case pop q of Inr (Some it, q') \<Rightarrow> it # pop_all q' | _ \<Rightarrow> [])"
  by pat_completeness auto
termination
  apply (relation "measure (\<lambda>q. length (queue q))")
   apply simp
  apply (auto simp: pop_def split: sum.splits prod.splits dest: pop_loop_length)
  done

declare pop_all.simps [simp del]

definition insert_item :: "item \<Rightarrow> item list \<Rightarrow> item list" where
  "insert_item it xs =
     filter (\<lambda>i. item_x i \<le> item_x it) xs @ it # filter (\<lambda>i. \<not> item_x i \<le> item_x it) xs"

definition has_entry :: "entry list \<Rightarrow> item \<times> nat \<Rightarrow> bool" where
  "has_entry h jc = (\<exists>e \<in> set h. en_item e = Some (fst jc) \<and> en_count e = snd jc)"

definition pre_inv :: "item_key \<Rightarrow> equeue \<Rightarrow> bool" where
  "pre_inv k q \<longleftrightarrow>
     sorted (map entry_key (queue q)) \<and>
     distinct (map en_count (queue q)) \<and>
     (\<forall>e \<in> set (queue q). en_count e \<le> counter q) \<and>
     distinct (map (key_of \<circ> fst) (entry_finder q)) \<and>
     distinct (map snd (entry_finder q)) \<and>
     (\<forall>e \<in> set (queue q). \<forall>it. en_item e = Some it \<longrightarrow>
        (it, en_count e) \<in> set (entry_finder q) \<and> en_x e = item_x it) \<and>
     (\<forall>jc \<in> set (entry_finder q). snd jc \<le> counter q \<and> (key_of (fst jc) \<noteq> k \<longrightarrow> has_entry (queue q) jc))"

definition queue_inv :: "equeue \<Rightarrow> bool" where
  "queue_inv q \<longleftrightarrow>
     sorted (map entry_key (queue q)) \<and>
     distinct (map en_count (queue q)) \<and>
     (\<forall>e \<in> set (queue q). en_count e \<le> counter q) \<and>
     distinct (map (key_of \<circ> fst) (entry_finder q)) \<and>
     distinct (map snd (entry_finder q)) \<and>
     (\<forall>e \<in> set (queue q). \<forall>it. en_item e = Some it \<longrightarrow>
        (it, en_count e) \<in> set (entry_finder q) \<and> en_x e = item_x it) \<and>
     (\<forall>jc \<in> set (entry_finder q). snd jc \<le> counter q \<and> has_entry (queue q) jc)"

lemma queue_inv_pre: "queue_inv q \<Longrightarrow> pre_inv k q"
  by (simp add: queue_inv_def pre_inv_def)

subsection \<open>list facts\<close>

lemma insort_key_filter:
  "sorted (map f xs) \<Longrightarrow>
   insort_key f x xs = filter (\<lambda>y. f y < f x) xs @ x # filter (\<lambda>y. \<not> f y < f x) xs"
proof (induction xs)
  case Nil
  then show ?case by simp
next
  case (Cons y ys)
  show ?case
  proof (cases "f x \<le> f y")
    case True
    with Cons.prems have "\<forall>z \<in> set ys. \<not> f z < f x" by fastforce
    then have "filter (\<lambda>y. f y < f x) ys = []" "filter (\<lambda>y. \<not> f y < f x) ys = ys"
      by (simp_all add: filter_empty_conv filter_id_conv)
    with True show ?thesis by auto
  next
    case False
    with Cons show ?thesis by (auto simp: not_le)
  qed
qed

lemma live_filter:
  "\<forall>e \<in> set h. \<forall>i. en_item e = Some i \<longrightarrow> Q e = P i \<Longrightarrow> live (filter Q h) = filter P (live h)"
  by (induction h) (auto split: option.splits)

lemma live_mark_removed: "live (mark_removed c h) = live (filter (\<lambda>e. en_count e \<noteq> c) h)"
  by (induction h) (auto simp: mark_removed_def split: option.splits)

lemma set_live: "set (live h) = {i. \<exists>e \<in> set h. en_item e = Some i}"
  by (induction h) (auto split: option.splits)

lemma map_entry_key_mark_removed [simp]: "map entry_key (mark_removed c h) = map entry_key h"
  by (simp add: mark_removed_def entry_key_def)

lemma map_en_count_mark_removed [simp]: "map en_count (mark_removed c h) = map en_count h"
  by (simp add: mark_removed_def)

lemma ef_get_Some:
  "distinct (map (key_of \<circ> fst) ef) \<Longrightarrow> ef_get it ef = Some c \<longleftrightarrow> (\<exists>j. (j, c) \<in> set ef \<and> key_of j = key_of it)"
  unfolding ef_get_def
  by (induction ef) (auto simp: rev_image_eqI)

lemma ef_get_None: "ef_get it ef = None \<longleftrightarrow> \<not> ef_member it ef"
  unfolding ef_get_def ef_member_def
  by (induction ef) (auto)


subsection \<open>the loops\<close>

lemma top_loop_decomp:
  "top_loop h = (Some it, h') \<Longrightarrow> \<exists>pre e. h = pre @ e # h' \<and> en_item e = Some it \<and> live pre = []"
proof (induction h)
  case Nil
  then show ?case by simp
next
  case (Cons a h)
  show ?case
  proof (cases "en_item a")
    case None
    with Cons obtain pre e where "h = pre @ e # h'" "en_item e = Some it" "live pre = []"
      by auto
    with None have "a # h = (a # pre) @ e # h' \<and> en_item e = Some it \<and> live (a # pre) = []"
      by simp
    then show ?thesis by blast
  next
    case (Some i)
    with Cons.prems have "a # h = [] @ a # h' \<and> en_item a = Some it \<and> live [] = []"
      by simp
    then show ?thesis by blast
  qed
qed

lemma top_loop_None: "top_loop h = (None, h') \<Longrightarrow> h' = [] \<and> live h = []"
  by (induction h) (auto split: option.splits)

lemma top_loop_live_Nil: "live h = [] \<Longrightarrow> top_loop h = (None, [])"
  by (induction h) (auto split: option.splits)

lemma top_loop_live_Cons: "live h = m # rest \<Longrightarrow> \<exists>h'. top_loop h = (Some m, h') \<and> live h' = rest"
  by (induction h) (auto split: option.splits)

lemma pop_loop_top_loop:
  "pop_loop h ef =
     (case top_loop h of
        (None, h') \<Rightarrow> Inr (None, [], ef)
      | (Some it, h') \<Rightarrow> if ef_member it ef then Inr (Some it, h', ef_del it ef) else Inl KeyError)"
  by (induction h) (auto split: option.splits)

subsection \<open>removing and adding an entry\<close>

lemma ef_member_iff: "ef_member it ef \<longleftrightarrow> (\<exists>jc \<in> set ef. key_of (fst jc) = key_of it)"
  unfolding ef_member_def by (auto simp: image_iff) force+

lemma set_ef_del: "set (ef_del it ef) = {jc \<in> set ef. key_of (fst jc) \<noteq> key_of it}"
  by (auto simp: ef_del_def)

lemma ef_del_not_member: "\<not> ef_member it (ef_del it ef)"
  by (auto simp: ef_member_iff set_ef_del)

lemma distinct_ef_del:
  "distinct (map f ef) \<Longrightarrow> distinct (map f (ef_del it ef))"
  by (simp add: ef_del_def distinct_map_filter)

lemma removed_inv:
  assumes pre: "pre_inv (key_of it) q" and get: "ef_get it (entry_finder q) = Some c"
  defines "q1 \<equiv> q\<lparr>entry_finder := ef_del it (entry_finder q), queue := mark_removed c (queue q)\<rparr>"
  shows "queue_inv q1"
    and "live (queue q1) = filter (\<lambda>i. key_of i \<noteq> key_of it) (live (queue q))"
    and "\<not> ef_member it (entry_finder q1)"
proof -
  let ?h = "queue q" and ?ef = "entry_finder q"
  from pre have dk: "distinct (map (key_of \<circ> fst) ?ef)" and ds: "distinct (map snd ?ef)"
    and dc: "distinct (map en_count ?h)"
    and lv: "\<And>e i. e \<in> set ?h \<Longrightarrow> en_item e = Some i \<Longrightarrow> (i, en_count e) \<in> set ?ef \<and> en_x e = item_x i"
    and he: "\<And>jc. jc \<in> set ?ef \<Longrightarrow> snd jc \<le> counter q \<and> (key_of (fst jc) \<noteq> key_of it \<longrightarrow> has_entry ?h jc)"
    by (auto simp: pre_inv_def)
  from get dk obtain j where j: "(j, c) \<in> set ?ef" "key_of j = key_of it"
    by (auto simp: ef_get_Some)
  have uniq_key: "\<And>i c'. (i, c') \<in> set ?ef \<Longrightarrow> key_of i = key_of it \<Longrightarrow> i = j \<and> c' = c"
  proof -
    fix i c' assume a: "(i, c') \<in> set ?ef" "key_of i = key_of it"
    from dk have "inj_on (key_of \<circ> fst) (set ?ef)" by (simp add: distinct_map)
    from inj_onD[OF this, of "(i, c')" "(j, c)"] a j show "i = j \<and> c' = c" by simp
  qed
  have uniq_cnt: "\<And>i. (i, c) \<in> set ?ef \<Longrightarrow> i = j"
  proof -
    fix i assume a: "(i, c) \<in> set ?ef"
    from ds have "inj_on snd (set ?ef)" by (simp add: distinct_map)
    from inj_onD[OF this, of "(i, c)" "(j, c)"] a j show "i = j" by simp
  qed
  have iff: "\<And>e i. e \<in> set ?h \<Longrightarrow> en_item e = Some i \<Longrightarrow> (en_count e \<noteq> c) = (key_of i \<noteq> key_of it)"
    using lv uniq_key uniq_cnt j by metis
  show "live (queue q1) = filter (\<lambda>i. key_of i \<noteq> key_of it) (live (queue q))"
    unfolding q1_def using iff by (simp add: live_mark_removed live_filter)
  show "\<not> ef_member it (entry_finder q1)"
    by (simp add: q1_def ef_del_not_member)
  have mem: "\<And>e. e \<in> set (mark_removed c ?h) \<Longrightarrow>
      (\<exists>e0 \<in> set ?h. en_count e0 = en_count e \<and> en_x e0 = en_x e \<and>
         (if en_count e0 = c then en_item e = None else en_item e = en_item e0))"
    by (auto simp: mark_removed_def)
  have "\<forall>e \<in> set (queue q1). \<forall>i. en_item e = Some i \<longrightarrow>
        (i, en_count e) \<in> set (entry_finder q1) \<and> en_x e = item_x i"
  proof (intro ballI allI impI)
    fix e i assume e: "e \<in> set (queue q1)" "en_item e = Some i"
    then obtain e0 where e0: "e0 \<in> set ?h" "en_count e0 = en_count e" "en_x e0 = en_x e"
      "en_count e0 \<noteq> c" "en_item e0 = Some i"
      using mem[of e] by (auto simp: q1_def split: if_splits)
    with lv[of e0 i] iff[of e0 i] show "(i, en_count e) \<in> set (entry_finder q1) \<and> en_x e = item_x i"
      by (auto simp: q1_def set_ef_del)
  qed
  moreover have "\<forall>jc \<in> set (entry_finder q1). snd jc \<le> counter q1 \<and> has_entry (queue q1) jc"
  proof
    fix jc assume "jc \<in> set (entry_finder q1)"
    then have jc: "jc \<in> set ?ef" "key_of (fst jc) \<noteq> key_of it"
      by (auto simp: q1_def set_ef_del)
    with he[of jc] obtain e where e: "e \<in> set ?h" "en_item e = Some (fst jc)" "en_count e = snd jc"
      and le: "snd jc \<le> counter q"
      by (auto simp: has_entry_def)
    with iff[of e "fst jc"] jc have "en_count e \<noteq> c" by simp
    with e have "e \<in> set (mark_removed c ?h)"
      by (force simp: mark_removed_def)
    with e le show "snd jc \<le> counter q1 \<and> has_entry (queue q1) jc"
      by (auto simp: q1_def has_entry_def)
  qed
  moreover have "\<forall>e \<in> set (queue q1). en_count e \<le> counter q1"
    using pre mem by (fastforce simp: q1_def pre_inv_def)
  ultimately show "queue_inv q1"
    using pre by (simp add: queue_inv_def pre_inv_def q1_def distinct_ef_del)
qed


lemma distinct_map_insort_key:
  "distinct (map f (insort_key g x xs)) \<longleftrightarrow> f x \<notin> f ` set xs \<and> distinct (map f xs)"
  by (induction xs) (auto simp: set_insort_key)

lemma added_inv:
  assumes inv: "queue_inv q1" and nm: "\<not> ef_member it (entry_finder q1)"
  defines "c \<equiv> counter q1 + 1"
  defines "q' \<equiv> q1\<lparr>counter := c, entry_finder := ef_set it c (entry_finder q1),
                     queue := heappush (queue q1) \<lparr>en_x = item_x it, en_count = c, en_item = Some it\<rparr>\<rparr>"
  shows "queue_inv q'" and "live (queue q') = insert_item it (live (queue q1))"
proof -
  let ?h = "queue q1" and ?ef = "entry_finder q1"
  let ?new = "\<lparr>en_x = item_x it, en_count = c, en_item = Some it\<rparr>"
  from inv have srt: "sorted (map entry_key ?h)"
    and cnt: "\<And>e. e \<in> set ?h \<Longrightarrow> en_count e \<le> counter q1"
    and lv: "\<And>e i. e \<in> set ?h \<Longrightarrow> en_item e = Some i \<Longrightarrow> (i, en_count e) \<in> set ?ef \<and> en_x e = item_x i"
    and he: "\<And>jc. jc \<in> set ?ef \<Longrightarrow> snd jc \<le> counter q1 \<and> has_entry ?h jc"
    by (auto simp: queue_inv_def)
  have efs: "entry_finder q' = ?ef @ [(it, c)]"
    using nm by (simp add: q'_def ef_set_def)
  have qs: "queue q' = insort_key entry_key ?new ?h"
    by (simp add: q'_def heappush_def)
  have lt: "\<And>e. e \<in> set ?h \<Longrightarrow> (entry_key e < entry_key ?new) = (en_x e \<le> item_x it)"
    using cnt by (fastforce simp: entry_key_def c_def less_prod_def)
  have "queue q' = filter (\<lambda>e. en_x e \<le> item_x it) ?h @ ?new # filter (\<lambda>e. \<not> en_x e \<le> item_x it) ?h"
    unfolding qs insort_key_filter[OF srt] using lt
    by (metis (mono_tags, lifting) filter_cong)
  moreover have "live (filter (\<lambda>e. en_x e \<le> item_x it) ?h) = filter (\<lambda>i. item_x i \<le> item_x it) (live ?h)"
    by (rule live_filter) (use lv in auto)
  moreover have "live (filter (\<lambda>e. \<not> en_x e \<le> item_x it) ?h) = filter (\<lambda>i. \<not> item_x i \<le> item_x it) (live ?h)"
    by (rule live_filter) (use lv in auto)
  ultimately show "live (queue q') = insert_item it (live (queue q1))"
    by (simp add: insert_item_def)
  have c_notin: "c \<notin> en_count ` set ?h" "c \<notin> snd ` set ?ef"
    using cnt he by (fastforce simp: c_def)+
  have k_notin: "key_of it \<notin> (key_of \<circ> fst) ` set ?ef"
    using nm by (simp add: ef_member_def)
  have "sorted (map entry_key (queue q'))"
    unfolding qs using srt by (simp add: sorted_insort_key)
  moreover have "distinct (map en_count (queue q'))"
    unfolding qs using inv c_notin by (simp add: distinct_map_insort_key queue_inv_def)
  moreover have "\<forall>e \<in> set (queue q'). en_count e \<le> counter q'"
    unfolding qs using cnt by (fastforce simp: set_insort_key q'_def c_def)
  moreover have "distinct (map (key_of \<circ> fst) (entry_finder q'))"
    unfolding efs using inv k_notin by (simp add: queue_inv_def)
  moreover have "distinct (map snd (entry_finder q'))"
    unfolding efs using inv c_notin by (simp add: queue_inv_def)
  moreover have "\<forall>e \<in> set (queue q'). \<forall>i. en_item e = Some i \<longrightarrow>
        (i, en_count e) \<in> set (entry_finder q') \<and> en_x e = item_x i"
    unfolding qs efs using lv by (auto simp: set_insort_key)
  moreover have "\<forall>jc \<in> set (entry_finder q'). snd jc \<le> counter q' \<and> has_entry (queue q') jc"
    unfolding qs efs using he by (fastforce simp: set_insort_key has_entry_def q'_def c_def)
  ultimately show "queue_inv q'"
    by (simp add: queue_inv_def)
qed


subsection \<open>the operations on the pop sequence\<close>

lemma live_keys_in_ef:
  assumes "pre_inv k q" "i \<in> set (live (queue q))"
  shows "ef_member i (entry_finder q)"
proof -
  from assms(2) obtain e where "e \<in> set (queue q)" "en_item e = Some i"
    by (auto simp: set_live)
  with assms(1) have "(i, en_count e) \<in> set (entry_finder q)"
    by (simp add: pre_inv_def)
  then show ?thesis unfolding ef_member_iff by (intro bexI[of _ "(i, en_count e)"]) simp_all
qed

lemma push_pre_spec:
  assumes pre: "pre_inv (key_of it) q"
  shows "\<exists>q'. push it q = Inr q' \<and> queue_inv q' \<and>
           live (queue q') = insert_item it (filter (\<lambda>i. key_of i \<noteq> key_of it) (live (queue q)))"
proof (cases "ef_member it (entry_finder q)")
  case True
  then obtain c where c: "ef_get it (entry_finder q) = Some c"
    using ef_get_None[of it "entry_finder q"] by (cases "ef_get it (entry_finder q)") auto
  let ?q1 = "q\<lparr>entry_finder := ef_del it (entry_finder q), queue := mark_removed c (queue q)\<rparr>"
  note r = removed_inv[OF pre c]
  from added_inv[OF r(1) r(3)] r(2) True c show ?thesis
    by (simp add: push_def remove_def Let_def)
next
  case False
  have inv: "queue_inv q"
    using pre False by (auto simp: pre_inv_def queue_inv_def ef_member_iff)
  have "filter (\<lambda>i. key_of i \<noteq> key_of it) (live (queue q)) = live (queue q)"
  proof -
    { fix i assume "i \<in> set (live (queue q))"
      then have "ef_member i (entry_finder q)" using live_keys_in_ef[OF pre] by blast
      with False have "key_of i \<noteq> key_of it" unfolding ef_member_def by metis }
    then show ?thesis by (simp add: filter_id_conv)
  qed
  with added_inv[OF inv False] False show ?thesis
    by (simp add: push_def Let_def)
qed

lemma push_spec:
  "queue_inv q \<Longrightarrow> \<exists>q'. push it q = Inr q' \<and> queue_inv q' \<and>
           live (queue q') = insert_item it (filter (\<lambda>i. key_of i \<noteq> key_of it) (live (queue q)))"
  by (rule push_pre_spec) (rule queue_inv_pre)

lemma remove_spec:
  assumes "queue_inv q" "remove it q = Inr q'"
  shows "queue_inv q' \<and> live (queue q') = filter (\<lambda>i. key_of i \<noteq> key_of it) (live (queue q))"
proof -
  from assms(2) obtain c where c: "ef_get it (entry_finder q) = Some c"
    and q': "q' = q\<lparr>entry_finder := ef_del it (entry_finder q), queue := mark_removed c (queue q)\<rparr>"
    by (auto simp: remove_def split: option.splits)
  from removed_inv[OF queue_inv_pre[OF assms(1)] c] q' show ?thesis by simp
qed

lemma popped_inv:
  assumes inv: "queue_inv q" and h: "queue q = pre @ e # h'" and e: "en_item e = Some it"
    and pre: "live pre = []"
  shows "pre_inv (key_of it) (q\<lparr>queue := h'\<rparr>)"
    and "queue_inv (q\<lparr>queue := h', entry_finder := ef_del it (entry_finder q)\<rparr>)"
    and "ef_member it (entry_finder q)"
    and "it \<notin> set (live h')" and "key_of it \<notin> key_of ` set (live h')"
proof -
  let ?ef = "entry_finder q"
  from inv h have srt: "sorted (map entry_key h')" and dc: "distinct (map en_count (pre @ e # h'))"
    by (auto simp: queue_inv_def sorted_append)
  from inv have dk: "distinct (map (key_of \<circ> fst) ?ef)"
    and lv: "\<And>e i. e \<in> set (queue q) \<Longrightarrow> en_item e = Some i \<Longrightarrow> (i, en_count e) \<in> set ?ef \<and> en_x e = item_x i"
    and he: "\<And>jc. jc \<in> set ?ef \<Longrightarrow> snd jc \<le> counter q \<and> has_entry (queue q) jc"
    by (auto simp: queue_inv_def)
  have e_ef: "(it, en_count e) \<in> set ?ef" using lv[of e it] h e by simp
  then show "ef_member it ?ef" by (force simp: ef_member_iff)
  have other: "\<And>e' i. e' \<in> set h' \<Longrightarrow> en_item e' = Some i \<Longrightarrow> key_of i \<noteq> key_of it"
  proof
    fix e' i assume a: "e' \<in> set h'" "en_item e' = Some i" "key_of i = key_of it"
    then have "(i, en_count e') \<in> set ?ef" using lv[of e' i] h by simp
    moreover from dk have "inj_on (key_of \<circ> fst) (set ?ef)" by (simp add: distinct_map)
    ultimately have "(i, en_count e') = (it, en_count e)"
      using e_ef a(3) inj_onD[of "key_of \<circ> fst" "set ?ef" "(i, en_count e')" "(it, en_count e)"] by simp
    then have "en_count e = en_count e'" by simp
    moreover have "en_count e \<notin> en_count ` set h'" using dc by simp
    ultimately show False using a(1) by simp
  qed
  then show "key_of it \<notin> key_of ` set (live h')" by (force simp: set_live)
  then show "it \<notin> set (live h')" by blast
  have ent: "\<And>jc. jc \<in> set ?ef \<Longrightarrow> key_of (fst jc) \<noteq> key_of it \<Longrightarrow> has_entry h' jc"
  proof -
    fix jc assume a: "jc \<in> set ?ef" "key_of (fst jc) \<noteq> key_of it"
    with he[of jc] obtain e' where e': "e' \<in> set (queue q)" "en_item e' = Some (fst jc)" "en_count e' = snd jc"
      by (auto simp: has_entry_def)
    have "e' \<notin> set pre"
    proof
      assume "e' \<in> set pre"
      then have "fst jc \<in> set (live pre)" using e' by (auto simp: set_live)
      with pre show False by simp
    qed
    moreover have "e' \<noteq> e" using e' e a by auto
    ultimately have "e' \<in> set h'" using e' h by auto
    with e' show "has_entry h' jc" by (auto simp: has_entry_def)
  qed
  have cnt: "\<forall>e \<in> set h'. en_count e \<le> counter q"
    using inv h by (simp add: queue_inv_def)
  have dc': "distinct (map en_count h')" using dc by simp
  have ds: "distinct (map snd ?ef)" using inv by (simp add: queue_inv_def)
  have lv': "\<forall>e \<in> set h'. \<forall>i. en_item e = Some i \<longrightarrow> (i, en_count e) \<in> set ?ef \<and> en_x e = item_x i"
    using lv h by simp
  have le: "\<forall>jc \<in> set ?ef. snd jc \<le> counter q" using he by blast
  show "pre_inv (key_of it) (q\<lparr>queue := h'\<rparr>)"
    unfolding pre_inv_def using srt dc' cnt dk ds lv' le ent by simp
  have lv'': "\<forall>e \<in> set h'. \<forall>i. en_item e = Some i \<longrightarrow>
      (i, en_count e) \<in> set (ef_del it ?ef) \<and> en_x e = item_x i"
    using lv' other by (simp add: set_ef_del)
  have he'': "\<forall>jc \<in> set (ef_del it ?ef). snd jc \<le> counter q \<and> has_entry h' jc"
    using le ent by (simp add: set_ef_del)
  show "queue_inv (q\<lparr>queue := h', entry_finder := ef_del it (entry_finder q)\<rparr>)"
    unfolding queue_inv_def using srt dc' cnt dk ds lv'' he'' by (simp add: distinct_ef_del)
qed

lemma pop_spec:
  assumes inv: "queue_inv q"
  shows "\<exists>q'. pop q = Inr (case live (queue q) of [] \<Rightarrow> None | i # _ \<Rightarrow> Some i, q') \<and> queue_inv q' \<and>
           live (queue q') = tl (live (queue q))"
proof (cases "live (queue q)")
  case Nil
  then have "top_loop (queue q) = (None, [])" by (rule top_loop_live_Nil)
  moreover have "queue_inv (q\<lparr>queue := [], entry_finder := entry_finder q\<rparr>)"
  proof -
    have "entry_finder q = []"
    proof (cases "entry_finder q")
      case (Cons jc ef)
      with inv have "has_entry (queue q) jc" by (simp add: queue_inv_def)
      then have "fst jc \<in> set (live (queue q))" by (auto simp: has_entry_def set_live)
      with Nil show ?thesis by simp
    qed simp
    with inv show ?thesis by (simp add: queue_inv_def)
  qed
  ultimately show ?thesis using Nil by (simp add: pop_def pop_loop_top_loop)
next
  case (Cons m rest)
  then obtain h' where t: "top_loop (queue q) = (Some m, h')" and l: "live h' = rest"
    using top_loop_live_Cons by blast
  from top_loop_decomp[OF t] obtain pre e where d: "queue q = pre @ e # h'" "en_item e = Some m" "live pre = []"
    by blast
  note p = popped_inv[OF inv d]
  from p(2,3) t l Cons show ?thesis by (simp add: pop_def pop_loop_top_loop)
qed

lemma top_spec:
  assumes inv: "queue_inv q"
  shows "\<exists>q'. top_q q = Inr (case live (queue q) of [] \<Rightarrow> None | i # _ \<Rightarrow> Some i, q') \<and> queue_inv q' \<and>
           live (queue q') = (case live (queue q) of [] \<Rightarrow> [] | m # rest \<Rightarrow> insert_item m rest)"
proof (cases "live (queue q)")
  case Nil
  then have "top_loop (queue q) = (None, [])" by (rule top_loop_live_Nil)
  moreover have "queue_inv (q\<lparr>queue := []\<rparr>)"
  proof -
    have "entry_finder q = []"
    proof (cases "entry_finder q")
      case (Cons jc ef)
      with inv have "has_entry (queue q) jc" by (simp add: queue_inv_def)
      then have "fst jc \<in> set (live (queue q))" by (auto simp: has_entry_def set_live)
      with Nil show ?thesis by simp
    qed simp
    with inv show ?thesis by (simp add: queue_inv_def)
  qed
  ultimately show ?thesis using Nil by (simp add: top_q_def)
next
  case (Cons m rest)
  then obtain h' where t: "top_loop (queue q) = (Some m, h')" and l: "live h' = rest"
    using top_loop_live_Cons by blast
  from top_loop_decomp[OF t] obtain pre e where d: "queue q = pre @ e # h'" "en_item e = Some m" "live pre = []"
    by blast
  note p = popped_inv[OF inv d]
  from push_pre_spec[OF p(1)] obtain q' where q': "push m (q\<lparr>queue := h'\<rparr>) = Inr q'" "queue_inv q'"
    "live (queue q') = insert_item m (filter (\<lambda>i. key_of i \<noteq> key_of m) (live h'))"
    by auto
  have "filter (\<lambda>i. key_of i \<noteq> key_of m) (live h') = live h'"
    using p(5) by (simp add: filter_id_conv) (metis imageI)
  with q' t l Cons show ?thesis by (simp add: top_q_def)
qed

lemma pop_all_live: "queue_inv q \<Longrightarrow> pop_all q = live (queue q)"
proof (induction "live (queue q)" arbitrary: q)
  case Nil
  from pop_spec[OF Nil.prems] Nil.hyps[symmetric] show ?case
    by (auto simp: pop_all.simps[of q])
next
  case (Cons m rest)
  from pop_spec[OF Cons.prems] Cons.hyps(2)[symmetric] obtain q' where
    q': "pop q = Inr (Some m, q')" "queue_inv q'" "live (queue q') = rest"
    by auto
  from Cons.hyps(1)[of q'] q' have "pop_all q' = rest" by simp
  with q' Cons.hyps(2) show ?case by (simp add: pop_all.simps[of q])
qed

inductive reachable :: "equeue \<Rightarrow> bool" where
  init: "reachable EventPriorityQueue"
| push: "reachable q \<Longrightarrow> push it q = Inr q' \<Longrightarrow> reachable q'"
| pop: "reachable q \<Longrightarrow> pop q = Inr (r, q') \<Longrightarrow> reachable q'"
| top: "reachable q \<Longrightarrow> top_q q = Inr (r, q') \<Longrightarrow> reachable q'"
| remove: "reachable q \<Longrightarrow> remove it q = Inr q' \<Longrightarrow> reachable q'"

lemma reachable_inv: "reachable q \<Longrightarrow> queue_inv q"
proof (induction rule: reachable.induct)
  case init
  show ?case by (simp add: queue_inv_def EventPriorityQueue_def)
next
  case (push q it q')
  with push_spec[of q it] show ?case by auto
next
  case (pop q r q')
  with pop_spec[of q] show ?case by auto
next
  case (top q r q')
  with top_spec[of q] show ?case by auto
next
  case (remove q it q')
  with remove_spec[of q it q'] show ?case by auto
qed

lemma sorted_live:
  assumes "queue_inv q"
  shows "sorted (map item_x (live (queue q)))"
proof -
  have "sorted (map en_x h) \<Longrightarrow> \<forall>e \<in> set h. \<forall>i. en_item e = Some i \<longrightarrow> en_x e = item_x i \<Longrightarrow>
        sorted (map item_x (live h))" for h
    by (induction h) (auto simp: set_live split: option.splits)
  moreover have "sorted (map en_x (queue q))"
  proof -
    have "sorted (map entry_key h) \<Longrightarrow> sorted (map en_x h)" for h
      by (induction h) (auto simp: entry_key_def less_eq_prod_def)
    with assms show ?thesis by (simp add: queue_inv_def)
  qed
  ultimately show ?thesis using assms by (simp add: queue_inv_def)
qed

lemma distinct_live_keys:
  assumes inv: "queue_inv q"
  shows "distinct (map key_of (live (queue q)))"
proof -
  let ?ef = "entry_finder q"
  from inv have inj: "inj_on (key_of \<circ> fst) (set ?ef)" by (simp add: queue_inv_def distinct_map)
  have "distinct (map en_count h) \<Longrightarrow>
        \<forall>e \<in> set h. \<forall>i. en_item e = Some i \<longrightarrow> (i, en_count e) \<in> set ?ef \<Longrightarrow>
        distinct (map key_of (live h))" for h
  proof (induction h)
    case Nil
    show ?case by simp
  next
    case (Cons e h)
    then have IH: "distinct (map key_of (live h))" by simp
    show ?case
    proof (cases "en_item e")
      case None
      with IH show ?thesis by simp
    next
      case (Some i)
      have "key_of i \<notin> key_of ` set (live h)"
      proof
        assume "key_of i \<in> key_of ` set (live h)"
        then obtain e' i' where e': "e' \<in> set h" "en_item e' = Some i'" "key_of i' = key_of i"
          by (auto simp: set_live)
        with Cons.prems(2) Some have "(i', en_count e') \<in> set ?ef" "(i, en_count e) \<in> set ?ef"
          by auto
        with inj_onD[OF inj, of "(i', en_count e')" "(i, en_count e)"] e'(3)
        have "en_count e' = en_count e" by simp
        moreover have "en_count e \<notin> en_count ` set h" using Cons.prems(1) by simp
        ultimately show False using e'(1) by (metis imageI)
      qed
      with IH Some show ?thesis by simp
    qed
  qed
  with inv show ?thesis by (simp add: queue_inv_def)
qed

lemma length_filter_key:
  "distinct (map key_of xs) \<Longrightarrow> k \<in> key_of ` set xs \<Longrightarrow>
   Suc (length (filter (\<lambda>i. key_of i \<noteq> k) xs)) = length xs"
proof (induction xs)
  case Nil
  then show ?case by simp
next
  case (Cons x xs)
  show ?case
  proof (cases "key_of x = k")
    case True
    have "key_of x \<notin> key_of ` set xs" using Cons.prems by simp
    with True have "\<forall>i \<in> set xs. key_of i \<noteq> k" by (metis imageI)
    then have "filter (\<lambda>i. key_of i \<noteq> k) xs = xs" by (simp add: filter_id_conv)
    with True show ?thesis by simp
  next
    case False
    with Cons show ?thesis by auto
  qed
qed

lemma length_insert_item [simp]: "length (insert_item it xs) = Suc (length xs)"
proof -
  have "length (filter P xs) + length (filter (\<lambda>i. \<not> P i) xs) = length xs" for P
    by (induction xs) auto
  then show ?thesis by (simp add: insert_item_def)
qed

lemma set_insert_item [simp]: "set (insert_item it xs) = insert it (set xs)"
  by (auto simp: insert_item_def)

lemma add_points_loop_spec:
  "queue_inv q \<Longrightarrow>
   \<exists>q'. add_points_loop ps q = Inr q' \<and> queue_inv q' \<and>
     key_of ` set (live (queue q')) = key_of ` set (live (queue q)) \<union> (\<lambda>(a, b). key_of (PointItem (Point a b))) ` set ps"
proof (induction ps arbitrary: q)
  case Nil
  then show ?case by simp
next
  case (Cons p ps)
  obtain a b where p: "p = (a, b)" by (cases p)
  let ?it = "PointItem (Point a b)"
  from push_spec[OF Cons.prems, of ?it] obtain q1 where q1: "push ?it q = Inr q1" "queue_inv q1"
    "live (queue q1) = insert_item ?it (filter (\<lambda>i. key_of i \<noteq> key_of ?it) (live (queue q)))"
    by blast
  from Cons.IH[OF q1(2)] obtain q' where q': "add_points_loop ps q1 = Inr q'" "queue_inv q'"
    "key_of ` set (live (queue q')) = key_of ` set (live (queue q1)) \<union> (\<lambda>(a, b). key_of (PointItem (Point a b))) ` set ps"
    by blast
  have "key_of ` set (live (queue q1)) = insert (key_of ?it) (key_of ` set (live (queue q)))"
    unfolding q1(3) by auto
  with q' q1(1) p show ?case by auto
qed


lemma reachable_add_points_loop:
  "reachable q \<Longrightarrow> add_points_loop ps q = Inr q' \<Longrightarrow> reachable q'"
proof (induction ps arbitrary: q)
  case Nil
  then show ?case by simp
next
  case (Cons p ps)
  obtain a b where p: "p = (a, b)" by (cases p)
  from Cons.prems(2) p obtain q1 where q1: "push (PointItem (Point a b)) q = Inr q1" "add_points_loop ps q1 = Inr q'"
    by (auto split: sum.splits)
  from reachable.push[OF Cons.prems(1) q1(1)] Cons.IH q1(2) show ?case by blast
qed


definition tie_queue :: equeue where
  "tie_queue =
     \<lparr>queue = [\<lparr>en_x = 1, en_count = 1, en_item = Some (PointItem \<lparr>pt_x = 1, pt_y = 0\<rparr>)\<rparr>,
                \<lparr>en_x = 1, en_count = 2, en_item = Some (PointItem \<lparr>pt_x = 1, pt_y = 5\<rparr>)\<rparr>],
      entry_finder = [(PointItem \<lparr>pt_x = 1, pt_y = 0\<rparr>, 1), (PointItem \<lparr>pt_x = 1, pt_y = 5\<rparr>, 2)],
      counter = 2\<rparr>"

definition tie_queue_top :: equeue where
  "tie_queue_top =
     \<lparr>queue = [\<lparr>en_x = 1, en_count = 2, en_item = Some (PointItem \<lparr>pt_x = 1, pt_y = 5\<rparr>)\<rparr>,
                \<lparr>en_x = 1, en_count = 3, en_item = Some (PointItem \<lparr>pt_x = 1, pt_y = 0\<rparr>)\<rparr>],
      entry_finder = [(PointItem \<lparr>pt_x = 1, pt_y = 5\<rparr>, 2), (PointItem \<lparr>pt_x = 1, pt_y = 0\<rparr>, 3)],
      counter = 3\<rparr>"

lemma round1_int [simp]: "round1 (of_int n) = of_int n"
  by (simp add: round1_def Let_def)

lemma round1_numeral [simp]: "round1 (numeral n) = numeral n" "round1 0 = 0" "round1 1 = 1"
  using round1_int[of "numeral n"] round1_int[of 0] round1_int[of 1] by simp_all

lemmas queue_eval = push_def remove_def pop_def top_q_def ef_member_def ef_get_def ef_del_def
  ef_set_def heappush_def entry_key_def mark_removed_def EventPriorityQueue_def Point_def


section \<open>Queue: no live item\<close>

lemma pop_loop_all_removed:
  "\<forall>e \<in> set h. en_item e = None \<Longrightarrow> pop_loop h ef = Inr (None, [], ef)"
  by (induction h) auto

lemma top_loop_all_removed:
  "\<forall>e \<in> set h. en_item e = None \<Longrightarrow> top_loop h = (None, [])"
  by (induction h) auto

text \<open>
  C10. On a queue whose heap holds no live entry (it is empty, or every entry is marked
  removed), \<open>pop\<close> and \<open>top_q\<close> raise nothing and return \<open>None\<close>; the tombstones are
  consumed.
\<close>

theorem pop_top_no_live_item:
  assumes "\<forall>e \<in> set (queue q). en_item e = None"
  shows "pop q = Inr (None, q\<lparr>queue := []\<rparr>) \<and> top_q q = Inr (None, q\<lparr>queue := []\<rparr>)"
  using assms by (simp add: pop_def top_q_def pop_loop_all_removed top_loop_all_removed)

text \<open>
  The hypothesis of C10 holds of the queue reached by pushing the point \<open>(1, 0)\<close> and
  removing it again: its heap holds one tombstone.
\<close>

definition tombstone_queue :: equeue where
  "tombstone_queue =
     \<lparr>queue = [\<lparr>en_x = 1, en_count = 1, en_item = None\<rparr>], entry_finder = [], counter = 1\<rparr>"

theorem pop_top_no_live_item_witness:
  "(case push (PointItem (Point 1 0)) EventPriorityQueue of
      Inr q \<Rightarrow> remove (PointItem (Point 1 0)) q | Inl err \<Rightarrow> Inl err) = Inr tombstone_queue \<and>
   pop tombstone_queue = Inr (None, tombstone_queue\<lparr>queue := []\<rparr>) \<and>
   top_q tombstone_queue = Inr (None, tombstone_queue\<lparr>queue := []\<rparr>)"
  using pop_top_no_live_item [of tombstone_queue]
  by (simp add: queue_eval tombstone_queue_def)

section \<open>Queue: top\<close>

text \<open>
  Two points of equal \<open>x\<close> are pushed, \<open>(1, 0)\<close> before \<open>(1, 5)\<close>. \<open>pop\<close> would return
  \<open>(1, 0)\<close> and then \<open>(1, 5)\<close>. \<open>top_q\<close> returns \<open>(1, 0)\<close> and pushes it again under the
  new counter 3, behind \<open>(1, 5)\<close> with counter 2: then \<open>pop\<close> returns \<open>(1, 5)\<close> first.
\<close>

theorem top_reorders_ties_counterexample:
  "add_points_loop [(1, 0), (1, 5)] EventPriorityQueue = Inr tie_queue \<and>
   top_q tie_queue = Inr (Some (PointItem \<lparr>pt_x = 1, pt_y = 0\<rparr>), tie_queue_top) \<and>
   pop_all tie_queue = [PointItem \<lparr>pt_x = 1, pt_y = 0\<rparr>, PointItem \<lparr>pt_x = 1, pt_y = 5\<rparr>] \<and>
   pop_all tie_queue_top = [PointItem \<lparr>pt_x = 1, pt_y = 5\<rparr>, PointItem \<lparr>pt_x = 1, pt_y = 0\<rparr>]"
  by (simp add: queue_eval tie_queue_def tie_queue_top_def pop_all.simps)

text \<open>
  C3, amended. In every reachable state with a live item, \<open>top_q\<close> raises nothing and
  returns the item \<open>m\<close> that \<open>pop\<close> would return, an item of least \<open>x\<close>. Every live item
  stays in the queue and is popped in ascending \<open>x\<close>, but \<open>m\<close> is pushed again under a new
  counter: it is now popped after the other items of the same \<open>x\<close>. Where no other live
  item has the \<open>x\<close> of \<open>m\<close>, the sequence of pops is the one before the call.
\<close>

theorem top_returns_minimum:
  assumes "reachable q" and "pop_all q = m # rest"
  shows "\<exists>q'. top_q q = Inr (Some m, q') \<and>
           (\<forall>i \<in> set rest. item_x m \<le> item_x i) \<and>
           pop_all q' = filter (\<lambda>i. item_x i = item_x m) rest @ m # filter (\<lambda>i. item_x i \<noteq> item_x m) rest \<and>
           ((\<forall>i \<in> set rest. item_x i \<noteq> item_x m) \<longrightarrow> pop_all q' = pop_all q)"
proof -
  from assms(1) have inv: "queue_inv q" by (rule reachable_inv)
  with assms(2) have l: "live (queue q) = m # rest" by (simp add: pop_all_live)
  from top_spec[OF inv] l obtain q' where q': "top_q q = Inr (Some m, q')" "queue_inv q'"
    "live (queue q') = insert_item m rest"
    by auto
  from sorted_live[OF inv] l have mn: "\<forall>i \<in> set rest. item_x m \<le> item_x i" by simp
  then have "filter (\<lambda>i. item_x i \<le> item_x m) rest = filter (\<lambda>i. item_x i = item_x m) rest"
    "filter (\<lambda>i. \<not> item_x i \<le> item_x m) rest = filter (\<lambda>i. item_x i \<noteq> item_x m) rest"
    by (auto intro!: filter_cong)
  then have eq: "insert_item m rest =
      filter (\<lambda>i. item_x i = item_x m) rest @ m # filter (\<lambda>i. item_x i \<noteq> item_x m) rest"
    by (simp add: insert_item_def)
  have "(\<forall>i \<in> set rest. item_x i \<noteq> item_x m) \<longrightarrow> insert_item m rest = m # rest"
    unfolding eq by (simp add: filter_empty_conv filter_id_conv)
  with q' mn eq assms(2) show ?thesis by (simp add: pop_all_live)
qed

definition two_queue :: equeue where
  "two_queue =
     \<lparr>queue = [\<lparr>en_x = 1, en_count = 1, en_item = Some (PointItem \<lparr>pt_x = 1, pt_y = 0\<rparr>)\<rparr>,
                \<lparr>en_x = 2, en_count = 2, en_item = Some (PointItem \<lparr>pt_x = 2, pt_y = 5\<rparr>)\<rparr>],
      entry_finder = [(PointItem \<lparr>pt_x = 1, pt_y = 0\<rparr>, 1), (PointItem \<lparr>pt_x = 2, pt_y = 5\<rparr>, 2)],
      counter = 2\<rparr>"

lemma two_queue_pushed: "add_points_loop [(1, 0), (2, 5)] EventPriorityQueue = Inr two_queue"
  by (simp add: queue_eval two_queue_def)

lemma reachable_two_queue: "reachable two_queue"
  by (rule reachable_add_points_loop [OF reachable.init two_queue_pushed])

lemma pop_all_two_queue:
  "pop_all two_queue = [PointItem \<lparr>pt_x = 1, pt_y = 0\<rparr>, PointItem \<lparr>pt_x = 2, pt_y = 5\<rparr>]"
  by (simp add: queue_eval two_queue_def pop_all.simps)

theorem top_returns_minimum_witness:
  "\<exists>q'. top_q two_queue = Inr (Some (PointItem \<lparr>pt_x = 1, pt_y = 0\<rparr>), q') \<and>
     pop_all q' = [PointItem \<lparr>pt_x = 1, pt_y = 0\<rparr>, PointItem \<lparr>pt_x = 2, pt_y = 5\<rparr>]"
  using top_returns_minimum [OF reachable_two_queue pop_all_two_queue]
  by (auto simp: pop_all_two_queue)

section \<open>Queue: pushing an item that is present\<close>

text \<open>
  C4. In every reachable state, when the queue holds a live item with the key of \<open>it\<close>,
  \<open>push it\<close> raises nothing, and afterwards the pops return exactly one item of that key,
  \<open>it\<close> itself, among as many items as before. Hence the site queue filled from any input
  list holds one item for each point that occurs, whatever the number of its copies.
\<close>

theorem push_replaces_equal_item:
  assumes "reachable q" and "key_of it \<in> key_of ` set (pop_all q)"
  shows "(\<exists>q'. push it q = Inr q' \<and>
            filter (\<lambda>i. key_of i = key_of it) (pop_all q') = [it] \<and>
            length (pop_all q') = length (pop_all q)) \<and>
         (\<exists>q'. add_points_loop ps EventPriorityQueue = Inr q' \<and>
            distinct (map key_of (pop_all q')) \<and>
            key_of ` set (pop_all q') = (\<lambda>(a, b). key_of (PointItem (Point a b))) ` set ps)"
proof
  from assms(1) have inv: "queue_inv q" by (rule reachable_inv)
  let ?L = "filter (\<lambda>i. key_of i \<noteq> key_of it) (live (queue q))"
  from push_spec[OF inv, of it] obtain q' where q': "push it q = Inr q'" "queue_inv q'"
    "live (queue q') = insert_item it ?L"
    by blast
  have "filter (\<lambda>i. key_of i = key_of it) (insert_item it ?L) = [it]"
    by (auto simp: insert_item_def filter_empty_conv)
  moreover have "length (insert_item it ?L) = length (live (queue q))"
    using length_filter_key[OF distinct_live_keys[OF inv], of "key_of it"] assms(2) inv
    by (simp add: pop_all_live)
  ultimately show "\<exists>q'. push it q = Inr q' \<and>
            filter (\<lambda>i. key_of i = key_of it) (pop_all q') = [it] \<and>
            length (pop_all q') = length (pop_all q)"
    using q' inv by (simp add: pop_all_live)
next
  have inv0: "queue_inv EventPriorityQueue"
    by (rule reachable_inv) (rule reachable.init)
  from add_points_loop_spec[OF inv0, of ps] obtain q' where
    q': "add_points_loop ps EventPriorityQueue = Inr q'" "queue_inv q'"
    "key_of ` set (live (queue q')) = key_of ` set (live (queue EventPriorityQueue)) \<union>
       (\<lambda>(a, b). key_of (PointItem (Point a b))) ` set ps"
    by blast
  then show "\<exists>q'. add_points_loop ps EventPriorityQueue = Inr q' \<and>
            distinct (map key_of (pop_all q')) \<and>
            key_of ` set (pop_all q') = (\<lambda>(a, b). key_of (PointItem (Point a b))) ` set ps"
    using distinct_live_keys[OF q'(2)] by (simp add: pop_all_live EventPriorityQueue_def)
qed

theorem push_replaces_equal_item_witness:
  "(\<exists>q'. push (PointItem \<lparr>pt_x = 1, pt_y = 0\<rparr>) two_queue = Inr q' \<and>
      filter (\<lambda>i. key_of i = key_of (PointItem \<lparr>pt_x = 1, pt_y = 0\<rparr>)) (pop_all q') =
        [PointItem \<lparr>pt_x = 1, pt_y = 0\<rparr>] \<and>
      length (pop_all q') = 2) \<and>
   (\<exists>q'. add_points_loop [(1, 0), (1, 0)] EventPriorityQueue = Inr q' \<and>
      key_of ` set (pop_all q') = {PointKey 1 0})"
proof -
  have "key_of (PointItem \<lparr>pt_x = 1, pt_y = 0\<rparr>) \<in> key_of ` set (pop_all two_queue)"
    by (simp add: pop_all_two_queue)
  from push_replaces_equal_item [OF reachable_two_queue this, of "[(1, 0), (1, 0)]"]
  show ?thesis by (auto simp: pop_all_two_queue Point_def)
qed

section \<open>line\_segment.py\<close>

record segment =
  seg_start :: point
  seg_end :: "point option"
  seg_done :: bool

definition LineSegment :: "point \<Rightarrow> segment" where
  "LineSegment p = \<lparr>seg_start = p, seg_end = None, seg_done = False\<rparr>"

definition finish :: "point \<Rightarrow> segment \<Rightarrow> segment" where
  "finish p sg = (if seg_done sg then sg else sg\<lparr>seg_end := Some p, seg_done := True\<rparr>)"

section \<open>parabolic\_arc.py\<close>

text \<open>
  Arcs and segments are mutable objects that are shared: an arc is named by its address
  in the store \<open>arcs\<close>, a segment by its index in \<open>output_segments\<close>, the list \<^verbatim>\<open>output\<close> (every segment is appended to
  it when it is built). \<open>arc_e\<close> is the field \<^verbatim>\<open>e\<close>, \<open>arc_p\<close> the field \<^verbatim>\<open>p\<close>.
\<close>

record arc =
  arc_p :: point
  pprev :: "nat option"
  pnext :: "nat option"
  arc_e :: "event option"
  s0 :: "nat option"
  s1 :: "nat option"

definition ParabolicArc :: "point \<Rightarrow> nat option \<Rightarrow> nat option \<Rightarrow> arc" where
  "ParabolicArc p a b = \<lparr>arc_p = p, pprev = a, pnext = b, arc_e = None, s0 = None, s1 = None\<rparr>"

section \<open>voronoi.py\<close>

text \<open>
  A function with a loop that need not end takes fuel; \<open>OutOfFuel\<close> is the loop still
  running when the fuel is spent. \<open>Raise\<close> is a Python exception.
\<close>

datatype 'a result = Ok 'a | Raise error | OutOfFuel

fun rbind :: "'a result \<Rightarrow> ('a \<Rightarrow> 'b result) \<Rightarrow> 'b result" where
  "rbind (Ok v) f = f v"
| "rbind (Raise err) f = Raise err"
| "rbind OutOfFuel f = OutOfFuel"

fun lift :: "error + 'a \<Rightarrow> 'a result" where
  "lift (Inl err) = Raise err"
| "lift (Inr v) = Ok v"

text \<open>
  The bounding box fields \<^verbatim>\<open>x0, y0, x1, y1\<close> are \<open>box_x0\<close>, ... here. \<open>invalid\<close> holds the
  identities of the events whose flag \<^verbatim>\<open>valid\<close> was set to \<^verbatim>\<open>False\<close>; \<open>n_events\<close> is the
  identity of the next event object.
\<close>

record voronoi =
  output_segments :: "segment list"
  parabolicArc :: "nat option"
  arcs :: "arc list"
  points :: equeue
  events :: equeue
  invalid :: "nat set"
  n_events :: nat
  largest_empty_circles :: "(point \<times> real \<times> point \<times> point \<times> point) list"
  max_circle_radius :: real
  box_x0 :: real
  box_y0 :: real
  box_x1 :: real
  box_y1 :: real

definition EPSILON :: real where
  "EPSILON = 1 / 10 ^ 10"

text \<open>\<^verbatim>\<open>__init__\<close>: \<^verbatim>\<open>_initialize_structures\<close>, \<^verbatim>\<open>_setup_bounds\<close>, \<^verbatim>\<open>_add_points\<close>.\<close>

definition initialize_structures :: voronoi where
  "initialize_structures =
     \<lparr>output_segments = [], parabolicArc = None, arcs = [], points = EventPriorityQueue,
      events = EventPriorityQueue, invalid = {}, n_events = 0,
      largest_empty_circles = [], max_circle_radius = 0,
      box_x0 = 0, box_y0 = 0, box_x1 = 0, box_y1 = 0\<rparr>"

definition setup_bounds :: "real \<Rightarrow> real \<Rightarrow> voronoi \<Rightarrow> voronoi" where
  "setup_bounds w h s = s\<lparr>box_x0 := 0, box_y0 := 0, box_x1 := w, box_y1 := h\<rparr>"

definition add_points :: "(real \<times> real) list \<Rightarrow> voronoi \<Rightarrow> voronoi result" where
  "add_points ps s = rbind (lift (add_points_loop ps (points s))) (\<lambda>q. Ok (s\<lparr>points := q\<rparr>))"

definition Voronoi :: "(real \<times> real) list \<Rightarrow> real \<Rightarrow> real \<Rightarrow> voronoi result" where
  "Voronoi ps w h = add_points ps (setup_bounds w h initialize_structures)"

text \<open>\<^verbatim>\<open>_check_circle\<close>: \<open>None\<close> is the result \<^verbatim>\<open>(False, None, None)\<close>.\<close>

definition check_circle :: "point \<Rightarrow> point \<Rightarrow> point \<Rightarrow> (real \<times> point) option" where
  "check_circle a b c =
     (if (pt_x b - pt_x a) * (pt_y c - pt_y a) - (pt_x c - pt_x a) * (pt_y b - pt_y a) > 0 then None
      else
        let A = pt_x b - pt_x a;
            B = pt_y b - pt_y a;
            C = pt_x c - pt_x a;
            D = pt_y c - pt_y a;
            E = A * (pt_x a + pt_x b) + B * (pt_y a + pt_y b);
            F = C * (pt_x a + pt_x c) + D * (pt_y a + pt_y c);
            G = 2 * (A * (pt_y c - pt_y b) - B * (pt_x c - pt_x b))
        in if G = 0 then None
           else
             let ox = (D * E - B * F) / G;
                 oy = (A * F - C * E) / G;
                 centre = Point ox oy;
                 x = ox + sqrt ((pt_x a - ox)\<^sup>2 + (pt_y a - oy)\<^sup>2)
             in Some (x, centre))"



text \<open>
  \<open>arc_at\<close> reads an arc through its address, \<open>upd_arc\<close> and \<open>upd_seg\<close> write a field
  of a shared object, \<open>alloc\<close> and \<open>append_seg\<close> build a new object; the address of the
  new arc is \<open>length (arcs s)\<close>, the index of the new segment \<open>length (output_segments s)\<close>.
\<close>

definition arc_at :: "voronoi \<Rightarrow> nat \<Rightarrow> arc" where
  "arc_at s i = arcs s ! i"

definition upd_arc :: "nat \<Rightarrow> (arc \<Rightarrow> arc) \<Rightarrow> voronoi \<Rightarrow> voronoi" where
  "upd_arc i f s = s\<lparr>arcs := (arcs s)[i := f (arcs s ! i)]\<rparr>"

definition alloc :: "arc \<Rightarrow> voronoi \<Rightarrow> voronoi" where
  "alloc a s = s\<lparr>arcs := arcs s @ [a]\<rparr>"

definition upd_seg :: "nat \<Rightarrow> (segment \<Rightarrow> segment) \<Rightarrow> voronoi \<Rightarrow> voronoi" where
  "upd_seg k f s = s\<lparr>output_segments := (output_segments s)[k := f (output_segments s ! k)]\<rparr>"

definition append_seg :: "segment \<Rightarrow> voronoi \<Rightarrow> voronoi" where
  "append_seg sg s = s\<lparr>output_segments := output_segments s @ [sg]\<rparr>"

text \<open>
  \<^verbatim>\<open>_check_potential_circle_event\<close>. The loop over \<^verbatim>\<open>self.points._entry_finder\<close> visits
  the keys of the site queue, the sites that are not popped yet. An \<^verbatim>\<open>Event\<close> has no
  field \<^verbatim>\<open>y\<close>.
\<close>

fun is_empty_loop :: "item list \<Rightarrow> point \<Rightarrow> point \<Rightarrow> point \<Rightarrow> point \<Rightarrow> real \<Rightarrow> bool result" where
  "is_empty_loop [] pv p nx ctr radius = Ok True"
| "is_empty_loop (PointItem en # es) pv p nx ctr radius =
     (if en \<notin> {pv, p, nx}
      then (if sqrt ((pt_x en - pt_x ctr)\<^sup>2 + (pt_y en - pt_y ctr)\<^sup>2) < radius - EPSILON
            then Ok False
            else is_empty_loop es pv p nx ctr radius)
      else is_empty_loop es pv p nx ctr radius)"
| "is_empty_loop (EventItem ev # es) pv p nx ctr radius = Raise AttributeError"

definition record_circle :: "point \<Rightarrow> real \<Rightarrow> point \<times> point \<times> point \<Rightarrow> voronoi \<Rightarrow> voronoi" where
  "record_circle ctr radius sites s =
     (if \<bar>radius - max_circle_radius s\<bar> < EPSILON
      then s\<lparr>largest_empty_circles := largest_empty_circles s @ [(ctr, radius, sites)]\<rparr>
      else if radius > max_circle_radius s
      then s\<lparr>max_circle_radius := radius, largest_empty_circles := [(ctr, radius, sites)]\<rparr>
      else s)"

definition check_potential_circle_event :: "nat \<Rightarrow> real \<Rightarrow> voronoi \<Rightarrow> voronoi result" where
  "check_potential_circle_event i x s =
     (let st1 = (case arc_e (arc_at s i) of
                   Some ev \<Rightarrow> if ev_x ev \<noteq> box_x0 s then s\<lparr>invalid := insert (ev_id ev) (invalid s)\<rparr> else s
                 | None \<Rightarrow> s);
          st2 = upd_arc i (\<lambda>a. a\<lparr>arc_e := None\<rparr>) st1
      in case pprev (arc_at st2 i) of
           None \<Rightarrow> Ok st2
         | Some pv \<Rightarrow>
             (case pnext (arc_at st2 i) of
                None \<Rightarrow> Ok st2
              | Some nx \<Rightarrow>
                  (case check_circle (arc_p (arc_at st2 pv)) (arc_p (arc_at st2 i)) (arc_p (arc_at st2 nx)) of
                     None \<Rightarrow> Ok st2
                   | Some (xe, ctr) \<Rightarrow>
                       if xe > x then
                         (let ev = \<lparr>ev_x = xe, ev_p = ctr, ev_a = i, ev_id = n_events st2\<rparr>;
                              st3 = (upd_arc i (\<lambda>a. a\<lparr>arc_e := Some ev\<rparr>) st2)\<lparr>n_events := n_events st2 + 1\<rparr>
                          in rbind (lift (push (EventItem ev) (events st3))) (\<lambda>q.
                               let st4 = st3\<lparr>events := q\<rparr>;
                                   ip = arc_p (arc_at st4 i);
                                   radius = sqrt ((pt_x ctr - pt_x ip)\<^sup>2 + (pt_y ctr - pt_y ip)\<^sup>2);
                                   sites = (arc_p (arc_at st4 pv), ip, arc_p (arc_at st4 nx))
                               in rbind (is_empty_loop (map fst (entry_finder (points st4)))
                                           (arc_p (arc_at st4 pv)) ip (arc_p (arc_at st4 nx)) ctr radius)
                                    (\<lambda>is_empty. Ok (if is_empty then record_circle ctr radius sites st4 else st4))))
                       else Ok st2)))"

text \<open>\<^verbatim>\<open>_find_intersection\<close>: the division and the square root raise.\<close>

definition fdiv :: "real \<Rightarrow> real \<Rightarrow> real result" where
  "fdiv a b = (if b = 0 then Raise ZeroDivisionError else Ok (a / b))"

definition fsqrt :: "real \<Rightarrow> real result" where
  "fsqrt a = (if a < 0 then Raise ValueError else Ok (sqrt a))"

definition find_intersection :: "point \<Rightarrow> point \<Rightarrow> real \<Rightarrow> point result" where
  "find_intersection p0 p1 l =
     rbind
       (if pt_x p0 = pt_x p1 then Ok (p0, (pt_y p0 + pt_y p1) / 2)
        else if pt_x p1 = l then Ok (p0, pt_y p1)
        else if pt_x p0 = l then Ok (p1, pt_y p0)
        else
          rbind (fdiv 1 (2 * (pt_x p0 - l))) (\<lambda>i0.
          rbind (fdiv 1 (2 * (pt_x p1 - l))) (\<lambda>i1.
            let z0 = 2 * (pt_x p0 - l);
                z1 = 2 * (pt_x p1 - l);
                a = i0 - i1;
                b = - 2 * (pt_y p0 / z0 - pt_y p1 / z1);
                c = ((pt_y p0)\<^sup>2 + (pt_x p0)\<^sup>2 - l\<^sup>2) / z0 - ((pt_y p1)\<^sup>2 + (pt_x p1)\<^sup>2 - l\<^sup>2) / z1
            in rbind (fsqrt (b * b - 4 * a * c)) (\<lambda>r.
               rbind (fdiv (- b - r) (2 * a)) (\<lambda>py. Ok (p0, py))))))
       (\<lambda>(p, py).
          rbind (fdiv ((pt_x p)\<^sup>2 + (pt_y p - py)\<^sup>2 - l\<^sup>2) (2 * pt_x p - 2 * l)) (\<lambda>px. Ok (Point px py)))"

text \<open>\<^verbatim>\<open>_check_intersection\<close>: \<open>None\<close> is the result \<^verbatim>\<open>(False, None)\<close>.\<close>

definition check_intersection :: "point \<Rightarrow> nat option \<Rightarrow> voronoi \<Rightarrow> point option result" where
  "check_intersection p io s =
     (case io of
        None \<Rightarrow> Ok None
      | Some i \<Rightarrow>
          if pt_x p = pt_x (arc_p (arc_at s i)) then Ok None
          else
            rbind (case pprev (arc_at s i) of
                     None \<Rightarrow> Ok None
                   | Some pv \<Rightarrow> rbind (find_intersection (arc_p (arc_at s pv)) (arc_p (arc_at s i)) (pt_x p))
                                  (\<lambda>z. Ok (Some (pt_y z)))) (\<lambda>a.
            rbind (case pnext (arc_at s i) of
                     None \<Rightarrow> Ok None
                   | Some nx \<Rightarrow> rbind (find_intersection (arc_p (arc_at s i)) (arc_p (arc_at s nx)) (pt_x p))
                                  (\<lambda>z. Ok (Some (pt_y z)))) (\<lambda>b.
              if (case a of None \<Rightarrow> True | Some ya \<Rightarrow> ya \<le> pt_y p) \<and>
                 (case b of None \<Rightarrow> True | Some yb \<Rightarrow> pt_y p \<le> yb)
              then
                rbind (fdiv ((pt_x (arc_p (arc_at s i)))\<^sup>2 + (pt_y (arc_p (arc_at s i)) - pt_y p)\<^sup>2 - (pt_x p)\<^sup>2)
                            (2 * pt_x (arc_p (arc_at s i)) - 2 * pt_x p))
                  (\<lambda>px. Ok (Some (Point px (pt_y p))))
              else Ok None)))"


text \<open>
  \<^verbatim>\<open>_add_parabolic_parabolicArc\<close>. \<open>split_arc\<close> is the body of \<^verbatim>\<open>if flag:\<close> for the arc
  \<open>i\<close> and the point \<open>z\<close>: \<open>c\<close> is the address of the copy of \<open>i\<close>, \<open>q\<close> the address of the
  arc of the new site, \<open>k\<close> and \<open>k + 1\<close> are the two new segments. When the arc after \<open>i\<close>
  exists and is hit as well, the \<^verbatim>\<open>else\<close> branch builds the copy with no successor.
\<close>

definition split_arc :: "point \<Rightarrow> nat \<Rightarrow> point \<Rightarrow> voronoi \<Rightarrow> voronoi result" where
  "split_arc p i z s =
     rbind (check_intersection p (pnext (arc_at s i)) s) (\<lambda>flag.
       let c = length (arcs s);
           st1 = (case pnext (arc_at s i) of
                    Some nx \<Rightarrow>
                      if flag = None
                      then upd_arc i (\<lambda>a. a\<lparr>pnext := Some c\<rparr>)
                             (upd_arc nx (\<lambda>a. a\<lparr>pprev := Some c\<rparr>)
                                (alloc (ParabolicArc (arc_p (arc_at s i)) (Some i) (Some nx)) s))
                      else upd_arc i (\<lambda>a. a\<lparr>pnext := Some c\<rparr>)
                             (alloc (ParabolicArc (arc_p (arc_at s i)) (Some i) None) s)
                  | None \<Rightarrow>
                      upd_arc i (\<lambda>a. a\<lparr>pnext := Some c\<rparr>)
                        (alloc (ParabolicArc (arc_p (arc_at s i)) (Some i) None) s));
           st2 = upd_arc c (\<lambda>a. a\<lparr>s1 := s1 (arc_at st1 i)\<rparr>) st1;
           q = length (arcs st2);
           st3 = upd_arc i (\<lambda>a. a\<lparr>pnext := Some q\<rparr>)
                   (upd_arc c (\<lambda>a. a\<lparr>pprev := Some q\<rparr>)
                      (alloc (ParabolicArc p (Some i) (Some c)) st2));
           k = length (output_segments st3);
           st4 = upd_arc q (\<lambda>a. a\<lparr>s0 := Some k\<rparr>)
                   (upd_arc i (\<lambda>a. a\<lparr>s1 := Some k\<rparr>) (append_seg (LineSegment z) st3));
           st5 = upd_arc q (\<lambda>a. a\<lparr>s1 := Some (k + 1)\<rparr>)
                   (upd_arc c (\<lambda>a. a\<lparr>s0 := Some (k + 1)\<rparr>) (append_seg (LineSegment z) st4))
       in rbind (check_potential_circle_event q (pt_x p) st5) (\<lambda>st6.
          rbind (check_potential_circle_event i (pt_x p) st6) (\<lambda>st7.
            check_potential_circle_event c (pt_x p) st7)))"

text \<open>
  The loop \<^verbatim>\<open>while i:\<close>; \<open>Some\<close> is the state at the \<^verbatim>\<open>return\<close> inside the loop, \<open>None\<close>
  the loop left with no arc hit.
\<close>

fun find_and_split :: "nat \<Rightarrow> point \<Rightarrow> nat option \<Rightarrow> voronoi \<Rightarrow> voronoi option result" where
  "find_and_split 0 p io s = OutOfFuel"
| "find_and_split (Suc n) p None s = Ok None"
| "find_and_split (Suc n) p (Some i) s =
     rbind (check_intersection p (Some i) s) (\<lambda>flag.
       case flag of
         Some z \<Rightarrow> rbind (split_arc p i z s) (\<lambda>st. Ok (Some st))
       | None \<Rightarrow> find_and_split n p (pnext (arc_at s i)) s)"

text \<open>The loop \<^verbatim>\<open>while i.pnext: i = i.pnext\<close>.\<close>

fun last_arc :: "nat \<Rightarrow> nat \<Rightarrow> voronoi \<Rightarrow> nat result" where
  "last_arc 0 i s = OutOfFuel"
| "last_arc (Suc n) i s = (case pnext (arc_at s i) of None \<Rightarrow> Ok i | Some nx \<Rightarrow> last_arc n nx s)"

definition append_arc :: "point \<Rightarrow> nat \<Rightarrow> voronoi \<Rightarrow> voronoi" where
  "append_arc p i s =
     (let c = length (arcs s);
          st1 = upd_arc i (\<lambda>a. a\<lparr>pnext := Some c\<rparr>) (alloc (ParabolicArc p (Some i) None) s);
          start = Point (box_x0 st1) ((pt_y (arc_p (arc_at st1 c)) + pt_y (arc_p (arc_at st1 i))) / 2);
          k = length (output_segments st1)
      in append_seg (LineSegment start)
           (upd_arc c (\<lambda>a. a\<lparr>s0 := Some k\<rparr>) (upd_arc i (\<lambda>a. a\<lparr>s1 := Some k\<rparr>) st1)))"

definition add_parabolic_parabolicArc :: "nat \<Rightarrow> point \<Rightarrow> voronoi \<Rightarrow> voronoi result" where
  "add_parabolic_parabolicArc n p s =
     (case parabolicArc s of
        None \<Rightarrow> Ok ((alloc (ParabolicArc p None None) s)\<lparr>parabolicArc := Some (length (arcs s))\<rparr>)
      | Some h \<Rightarrow>
          rbind (find_and_split n p (Some h) s) (\<lambda>r.
            case r of
              Some st \<Rightarrow> Ok st
            | None \<Rightarrow> rbind (last_arc n h s) (\<lambda>i. Ok (append_arc p i s))))"

text \<open>
  \<^verbatim>\<open>_process_site_event\<close>. \<^verbatim>\<open>pop\<close> returns \<^verbatim>\<open>None\<close> only when the heap has no live entry;
  the site then has no field \<^verbatim>\<open>x\<close>.
\<close>

definition process_site_event :: "nat \<Rightarrow> voronoi \<Rightarrow> voronoi result" where
  "process_site_event n s =
     rbind (lift (pop (points s))) (\<lambda>(r, q).
       case r of
         Some (PointItem p) \<Rightarrow> add_parabolic_parabolicArc n p (s\<lparr>points := q\<rparr>)
       | _ \<Rightarrow> Raise AttributeError)"

text \<open>
  \<^verbatim>\<open>_process_circle_event\<close>. \<open>collapse_arc\<close> is the body after the test of \<^verbatim>\<open>e.valid\<close>:
  \<open>k\<close> is the new segment, \<open>a\<close> the arc of the event.
\<close>

definition collapse_arc :: "event \<Rightarrow> voronoi \<Rightarrow> voronoi result" where
  "collapse_arc ev st0 =
     (let k = length (output_segments st0);
          st1 = append_seg (LineSegment (ev_p ev)) st0;
          a = ev_a ev;
          st2 = (case pprev (arc_at st1 a) of
                   Some pv \<Rightarrow>
                     upd_arc pv (\<lambda>x. x\<lparr>s1 := Some k\<rparr>)
                       (upd_arc pv (\<lambda>x. x\<lparr>pnext := pnext (arc_at st1 a)\<rparr>) st1)
                 | None \<Rightarrow> st1);
          st3 = (case pnext (arc_at st2 a) of
                   Some nx \<Rightarrow>
                     upd_arc nx (\<lambda>x. x\<lparr>s0 := Some k\<rparr>)
                       (upd_arc nx (\<lambda>x. x\<lparr>pprev := pprev (arc_at st2 a)\<rparr>) st2)
                 | None \<Rightarrow> st2);
          st4 = (case s0 (arc_at st3 a) of
                   Some j \<Rightarrow> upd_seg j (finish (ev_p ev)) st3
                 | None \<Rightarrow> st3);
          st5 = (case s1 (arc_at st4 a) of
                   Some j \<Rightarrow> upd_seg j (finish (ev_p ev)) st4
                 | None \<Rightarrow> st4)
      in rbind (case pprev (arc_at st5 a) of
                  Some pv \<Rightarrow> check_potential_circle_event pv (ev_x ev) st5
                | None \<Rightarrow> Ok st5) (\<lambda>st6.
           case pnext (arc_at st6 a) of
             Some nx \<Rightarrow> check_potential_circle_event nx (ev_x ev) st6
           | None \<Rightarrow> Ok st6))"

definition process_circle_event :: "voronoi \<Rightarrow> voronoi result" where
  "process_circle_event s =
     rbind (lift (pop (events s))) (\<lambda>(r, q).
       case r of
         Some (EventItem ev) \<Rightarrow>
           if ev_id ev \<in> invalid s then Ok (s\<lparr>events := q\<rparr>) else collapse_arc ev (s\<lparr>events := q\<rparr>)
       | _ \<Rightarrow> Raise AttributeError)"

text \<open>
  \<^verbatim>\<open>_process_all_events\<close>: \<^verbatim>\<open>top\<close> is called on the event queue, and on the site queue
  when the event queue is not empty; both calls change their queue.
\<close>

fun process_all_events :: "nat \<Rightarrow> voronoi \<Rightarrow> voronoi result" where
  "process_all_events 0 s = OutOfFuel"
| "process_all_events (Suc n) s =
     (if empty_q (points s) then Ok s
      else
        rbind
          (if \<not> empty_q (events s) then
             rbind (lift (top_q (events s))) (\<lambda>(te, qe).
               case te of
                 None \<Rightarrow> Raise AttributeError
               | Some ie \<Rightarrow>
                   rbind (lift (top_q (points s))) (\<lambda>(tp, qp).
                     case tp of
                       None \<Rightarrow> Raise AttributeError
                     | Some ip \<Rightarrow>
                         if item_x ie \<le> item_x ip
                         then process_circle_event (s\<lparr>events := qe, points := qp\<rparr>)
                         else process_site_event n (s\<lparr>events := qe, points := qp\<rparr>)))
           else process_site_event n s)
          (process_all_events n))"

text \<open>\<^verbatim>\<open>_process_remaining_events\<close>.\<close>

fun process_remaining_events :: "nat \<Rightarrow> voronoi \<Rightarrow> voronoi result" where
  "process_remaining_events 0 s = OutOfFuel"
| "process_remaining_events (Suc n) s =
     (if empty_q (events s) then Ok s
      else rbind (process_circle_event s) (process_remaining_events n))"


text \<open>
  \<^verbatim>\<open>_complete_unfinished_edges\<close>. \<open>edge_end_point\<close> is the body of the \<^verbatim>\<open>try\<close> up to the call
  of \<^verbatim>\<open>finish\<close>, for the sites \<open>p1\<close>, \<open>p2\<close> of the two arcs and the start of the edge;
  \<open>None\<close> is the \<^verbatim>\<open>continue\<close> for two sites that are too close. \<open>xa, ya\<close> and \<open>xb, yb\<close>
  are the locals \<^verbatim>\<open>x1, y1\<close> and \<^verbatim>\<open>x2, y2\<close>.
\<close>

definition edge_end_point :: "voronoi \<Rightarrow> point \<Rightarrow> point \<Rightarrow> point \<Rightarrow> point option result" where
  "edge_end_point s p1 p2 start =
     (let margin = max (box_x1 s - box_x0 s) (box_y1 s - box_y0 s);
          mx = (pt_x p1 + pt_x p2) / 2;
          my = (pt_y p1 + pt_y p2) / 2;
          dx = pt_x p2 - pt_x p1;
          dy = pt_y p2 - pt_y p1
      in if \<bar>dx\<bar> < EPSILON \<and> \<bar>dy\<bar> < EPSILON then Ok None
         else
           rbind (fdiv (- dy) (sqrt (dx * dx + dy * dy))) (\<lambda>nx.
           rbind (fdiv dx (sqrt (dx * dx + dy * dy))) (\<lambda>ny.
           rbind (if mx + nx * margin < box_x0 s then fdiv (box_x0 s - mx) nx
                  else if mx + nx * margin > box_x1 s then fdiv (box_x1 s - mx) nx
                  else Ok margin) (\<lambda>t1.
           rbind (if my + ny * margin < box_y0 s then rbind (fdiv (box_y0 s - my) ny) (\<lambda>v. Ok (min t1 v))
                  else if my + ny * margin > box_y1 s then rbind (fdiv (box_y1 s - my) ny) (\<lambda>v. Ok (min t1 v))
                  else Ok t1) (\<lambda>t2.
           let xa = mx + nx * t2;
               ya = my + ny * t2
           in
           rbind (if mx - nx * margin < box_x0 s then fdiv (mx - box_x0 s) nx
                  else if mx - nx * margin > box_x1 s then fdiv (mx - box_x1 s) nx
                  else Ok margin) (\<lambda>t3.
           rbind (if my - ny * margin < box_y0 s then rbind (fdiv (my - box_y0 s) ny) (\<lambda>v. Ok (min t3 v))
                  else if my - ny * margin > box_y1 s then rbind (fdiv (my - box_y1 s) ny) (\<lambda>v. Ok (min t3 v))
                  else Ok t3) (\<lambda>t4.
           let xb = mx - nx * t4;
               yb = my - ny * t4
           in if pt_x start = xb \<and> pt_y start = yb
              then Ok (Some (Point xa ya))
              else Ok (Some (Point xb yb)))))))))"

text \<open>
  The loop \<^verbatim>\<open>while i and i.pnext\<close>; the \<^verbatim>\<open>except\<close> clause catches every exception of the
  body and leaves the edge as it is.
\<close>

fun complete_loop :: "nat \<Rightarrow> nat option \<Rightarrow> voronoi \<Rightarrow> voronoi result" where
  "complete_loop 0 io s = OutOfFuel"
| "complete_loop (Suc n) None s = Ok s"
| "complete_loop (Suc n) (Some i) s =
     (case pnext (arc_at s i) of
        None \<Rightarrow> Ok s
      | Some nx \<Rightarrow>
          complete_loop n (Some nx)
            (case s1 (arc_at s i) of
               None \<Rightarrow> s
             | Some k \<Rightarrow>
                 (case edge_end_point s (arc_p (arc_at s i)) (arc_p (arc_at s nx))
                         (seg_start (output_segments s ! k)) of
                    Ok (Some p) \<Rightarrow> upd_seg k (finish p) s
                  | _ \<Rightarrow> s)))"

definition complete_unfinished_edges :: "nat \<Rightarrow> voronoi \<Rightarrow> voronoi result" where
  "complete_unfinished_edges n s = complete_loop n (parabolicArc s) s"

text \<open>
  \<^verbatim>\<open>_handle_two_points_case\<close>. \<^verbatim>\<open>next(iter(d))\<close> is the first key of the dictionary and
  raises StopIteration on an empty one; the second site is read after \<^verbatim>\<open>pop\<close>.
\<close>

definition first_key :: "equeue \<Rightarrow> point result" where
  "first_key q =
     (case entry_finder q of
        [] \<Rightarrow> Raise StopIteration
      | (PointItem p, c) # ef \<Rightarrow> Ok p
      | (EventItem ev, c) # ef \<Rightarrow> Raise AttributeError)"

definition handle_two_points_case :: "voronoi \<Rightarrow> voronoi result" where
  "handle_two_points_case s =
     rbind (first_key (points s)) (\<lambda>p1.
     rbind (lift (pop (points s))) (\<lambda>(r, q).
       let st1 = s\<lparr>points := q\<rparr>
       in rbind (first_key (points st1)) (\<lambda>p2.
            let mx = (pt_x p1 + pt_x p2) / 2;
                my = (pt_y p1 + pt_y p2) / 2;
                dx = pt_x p2 - pt_x p1;
                dy = pt_y p2 - pt_y p1
            in if \<bar>dx\<bar> < EPSILON
               then Ok (append_seg (finish (Point (mx + box_x1 st1) my) (LineSegment (Point (mx - box_x1 st1) my))) st1)
               else if \<bar>dy\<bar> < EPSILON
               then Ok (append_seg (finish (Point mx (my + box_y1 st1)) (LineSegment (Point mx (my - box_y1 st1)))) st1)
               else
                 let len = sqrt (dx * dx + dy * dy)
                 in if len < EPSILON then Ok st1
                    else
                      rbind (fdiv (- dy) len) (\<lambda>ex.
                      rbind (fdiv dx len) (\<lambda>ey.
                        let margin = max (box_x1 st1 - box_x0 st1) (box_y1 st1 - box_y0 st1)
                        in Ok (append_seg
                                 (finish (Point (mx - ex * margin) (my - ey * margin))
                                    (LineSegment (Point (mx + ex * margin) (my + ey * margin))))
                                 st1))))))"

text \<open>\<^verbatim>\<open>generate_voronoi_diagram\<close>: the \<^verbatim>\<open>except\<close> clause raises the exception again.\<close>

definition generate_voronoi_diagram :: "nat \<Rightarrow> voronoi \<Rightarrow> voronoi result" where
  "generate_voronoi_diagram n s =
     (if length (entry_finder (points s)) = 2 then handle_two_points_case s
      else
        rbind (process_all_events n s) (\<lambda>st1.
        rbind (process_remaining_events n st1) (\<lambda>st2.
          complete_unfinished_edges n st2)))"

text \<open>An edge that is done has an end: \<^verbatim>\<open>finish\<close> is the only writer of \<^verbatim>\<open>done\<close>.\<close>

definition get_voronoi_line_segments :: "voronoi \<Rightarrow> (real \<times> real \<times> real \<times> real) list" where
  "get_voronoi_line_segments s =
     concat (map (\<lambda>sg. if seg_done sg
                        then (case seg_end sg of
                                Some e \<Rightarrow> [(pt_x (seg_start sg), pt_y (seg_start sg), pt_x e, pt_y e)]
                              | None \<Rightarrow> [])
                        else [])
                 (output_segments s))"

definition get_largest_empty_circles :: "voronoi \<Rightarrow> (point \<times> real \<times> point \<times> point \<times> point) list" where
  "get_largest_empty_circles s = largest_empty_circles s"

section \<open>The circle through three sites\<close>










section \<open>The engine as it is run\<close>

text \<open>
  \<^verbatim>\<open>main.py\<close> builds the engine, calls \<^verbatim>\<open>generate_voronoi_diagram\<close> once and reads the two
  outputs.
\<close>

definition run_voronoi :: "nat \<Rightarrow> (real \<times> real) list \<Rightarrow> real \<Rightarrow> real \<Rightarrow> voronoi result" where
  "run_voronoi n ps w h = rbind (Voronoi ps w h) (generate_voronoi_diagram n)"

definition voronoi_edges :: "nat \<Rightarrow> (real \<times> real) list \<Rightarrow> real \<Rightarrow> real \<Rightarrow> (real \<times> real \<times> real \<times> real) list result" where
  "voronoi_edges n ps w h = rbind (run_voronoi n ps w h) (\<lambda>st. Ok (get_voronoi_line_segments st))"

definition voronoi_circles :: "nat \<Rightarrow> (real \<times> real) list \<Rightarrow> real \<Rightarrow> real \<Rightarrow> (point \<times> real \<times> point \<times> point \<times> point) list result" where
  "voronoi_circles n ps w h = rbind (run_voronoi n ps w h) (\<lambda>st. Ok (get_largest_empty_circles st))"

lemmas engine_eval = run_voronoi_def voronoi_edges_def voronoi_circles_def
  Voronoi_def add_points_def setup_bounds_def initialize_structures_def
  generate_voronoi_diagram_def handle_two_points_case_def first_key_def append_seg_def
  finish_def LineSegment_def get_voronoi_line_segments_def get_largest_empty_circles_def
  EPSILON_def

lemma round1_neg_numeral [simp]: "round1 (- numeral n) = - numeral n"
  using round1_int[of "- numeral n"] by simp


lemma key_of_PointItem_eq [simp]: "key_of (PointItem p) = key_of (PointItem q) \<longleftrightarrow> p = q"
  by (cases p, cases q) simp


section \<open>A sweep over three sites\<close>

text \<open>
  The sites \<open>(1, 1)\<close>, \<open>(1, 5)\<close> and \<open>(1.5, 4.5)\<close> on the box 10 x 10: every site is inside
  the box and none on its boundary. The states are the ones of the run of
  \<^verbatim>\<open>generate_voronoi_diagram\<close>: after the constructor, after two site events, after the
  third site event (the end of \<^verbatim>\<open>_process_all_events\<close>), after the circle event (the end
  of \<^verbatim>\<open>_process_remaining_events\<close>) and after \<^verbatim>\<open>_complete_unfinished_edges\<close>.
\<close>

lemma rbind_weak_cong: "m = m' \<Longrightarrow> rbind m f = rbind m' f"
  by simp

lemma round1_quarters [simp]:
  "round1 (3 / 2) = 3 / 2" "round1 (9 / 2) = 9 / 2" "round1 (13 / 2) = 13 / 2"
  "round1 (- (1 / 2)) = - (1 / 2)" "round1 (- (11 / 4)) = - (14 / 5)"
  by (simp_all add: round1_def Let_def)

lemma sqrt_25_4 [simp]: "sqrt (25 / 4) = 5 / 2"
  by (rule real_sqrt_unique) (simp_all add: power2_eq_square)

lemmas sweep_eval = process_site_event_def add_parabolic_parabolicArc_def check_intersection_def
  find_intersection_def split_arc_def check_potential_circle_event_def check_circle_def
  alloc_def upd_arc_def arc_at_def append_arc_def record_circle_def ParabolicArc_def
  fdiv_def fsqrt_def empty_q_def upd_seg_def collapse_arc_def process_circle_event_def
  eval_nat_numeral Let_def power2_eq_square

definition three_sites_initial :: voronoi where
  "three_sites_initial =
     \<lparr>output_segments = [], parabolicArc = None, arcs = [],
      points =
        \<lparr>queue = [\<lparr>en_x = 1, en_count = 1, en_item = Some (PointItem \<lparr>pt_x = 1, pt_y = 1\<rparr>)\<rparr>,
                   \<lparr>en_x = 1, en_count = 2, en_item = Some (PointItem \<lparr>pt_x = 1, pt_y = 5\<rparr>)\<rparr>,
                   \<lparr>en_x = 3 / 2, en_count = 3, en_item = Some (PointItem \<lparr>pt_x = 3 / 2, pt_y = 9 / 2\<rparr>)\<rparr>],
         entry_finder = [(PointItem \<lparr>pt_x = 1, pt_y = 1\<rparr>, 1), (PointItem \<lparr>pt_x = 1, pt_y = 5\<rparr>, 2),
                          (PointItem \<lparr>pt_x = 3 / 2, pt_y = 9 / 2\<rparr>, 3)],
         counter = 3\<rparr>,
      events = EventPriorityQueue, invalid = {}, n_events = 0,
      largest_empty_circles = [], max_circle_radius = 0,
      box_x0 = 0, box_y0 = 0, box_x1 = 10, box_y1 = 10\<rparr>"

definition three_sites_two_arcs :: voronoi where
  "three_sites_two_arcs =
     \<lparr>output_segments = [\<lparr>seg_start = \<lparr>pt_x = 0, pt_y = 3\<rparr>, seg_end = None, seg_done = False\<rparr>],
      parabolicArc = Some 0,
      arcs =
        [\<lparr>arc_p = \<lparr>pt_x = 1, pt_y = 1\<rparr>, pprev = None, pnext = Some 1, arc_e = None, s0 = None, s1 = Some 0\<rparr>,
         \<lparr>arc_p = \<lparr>pt_x = 1, pt_y = 5\<rparr>, pprev = Some 0, pnext = None, arc_e = None, s0 = Some 0, s1 = None\<rparr>],
      points =
        \<lparr>queue = [\<lparr>en_x = 3 / 2, en_count = 3, en_item = Some (PointItem \<lparr>pt_x = 3 / 2, pt_y = 9 / 2\<rparr>)\<rparr>],
         entry_finder = [(PointItem \<lparr>pt_x = 3 / 2, pt_y = 9 / 2\<rparr>, 3)],
         counter = 3\<rparr>,
      events = EventPriorityQueue, invalid = {}, n_events = 0,
      largest_empty_circles = [], max_circle_radius = 0,
      box_x0 = 0, box_y0 = 0, box_x1 = 10, box_y1 = 10\<rparr>"

definition three_sites_beach :: voronoi where
  "three_sites_beach =
     \<lparr>output_segments =
        [\<lparr>seg_start = \<lparr>pt_x = 0, pt_y = 3\<rparr>, seg_end = None, seg_done = False\<rparr>,
         \<lparr>seg_start = \<lparr>pt_x = 1, pt_y = 9 / 2\<rparr>, seg_end = None, seg_done = False\<rparr>,
         \<lparr>seg_start = \<lparr>pt_x = 1, pt_y = 9 / 2\<rparr>, seg_end = None, seg_done = False\<rparr>],
      parabolicArc = Some 0,
      arcs =
        [\<lparr>arc_p = \<lparr>pt_x = 1, pt_y = 1\<rparr>, pprev = None, pnext = Some 1, arc_e = None, s0 = None, s1 = Some 0\<rparr>,
         \<lparr>arc_p = \<lparr>pt_x = 1, pt_y = 5\<rparr>, pprev = Some 0, pnext = Some 3,
            arc_e = Some \<lparr>ev_x = 2, ev_p = \<lparr>pt_x = - (1 / 2), pt_y = 3\<rparr>, ev_a = 1, ev_id = 0\<rparr>,
            s0 = Some 0, s1 = Some 1\<rparr>,
         \<lparr>arc_p = \<lparr>pt_x = 1, pt_y = 5\<rparr>, pprev = Some 3, pnext = None, arc_e = None, s0 = Some 2, s1 = None\<rparr>,
         \<lparr>arc_p = \<lparr>pt_x = 3 / 2, pt_y = 9 / 2\<rparr>, pprev = Some 1, pnext = Some 2, arc_e = None,
            s0 = Some 1, s1 = Some 2\<rparr>],
      points = \<lparr>queue = [], entry_finder = [], counter = 3\<rparr>,
      events =
        \<lparr>queue = [\<lparr>en_x = 2, en_count = 1,
                     en_item = Some (EventItem \<lparr>ev_x = 2, ev_p = \<lparr>pt_x = - (1 / 2), pt_y = 3\<rparr>, ev_a = 1, ev_id = 0\<rparr>)\<rparr>],
         entry_finder = [(EventItem \<lparr>ev_x = 2, ev_p = \<lparr>pt_x = - (1 / 2), pt_y = 3\<rparr>, ev_a = 1, ev_id = 0\<rparr>, 1)],
         counter = 1\<rparr>,
      invalid = {}, n_events = 1,
      largest_empty_circles =
        [(\<lparr>pt_x = - (1 / 2), pt_y = 3\<rparr>, 5 / 2,
          \<lparr>pt_x = 1, pt_y = 1\<rparr>, \<lparr>pt_x = 1, pt_y = 5\<rparr>, \<lparr>pt_x = 3 / 2, pt_y = 9 / 2\<rparr>)],
      max_circle_radius = 5 / 2,
      box_x0 = 0, box_y0 = 0, box_x1 = 10, box_y1 = 10\<rparr>"

definition three_sites_swept :: voronoi where
  "three_sites_swept =
     \<lparr>output_segments =
        [\<lparr>seg_start = \<lparr>pt_x = 0, pt_y = 3\<rparr>, seg_end = Some \<lparr>pt_x = - (1 / 2), pt_y = 3\<rparr>, seg_done = True\<rparr>,
         \<lparr>seg_start = \<lparr>pt_x = 1, pt_y = 9 / 2\<rparr>, seg_end = Some \<lparr>pt_x = - (1 / 2), pt_y = 3\<rparr>, seg_done = True\<rparr>,
         \<lparr>seg_start = \<lparr>pt_x = 1, pt_y = 9 / 2\<rparr>, seg_end = None, seg_done = False\<rparr>,
         \<lparr>seg_start = \<lparr>pt_x = - (1 / 2), pt_y = 3\<rparr>, seg_end = None, seg_done = False\<rparr>],
      parabolicArc = Some 0,
      arcs =
        [\<lparr>arc_p = \<lparr>pt_x = 1, pt_y = 1\<rparr>, pprev = None, pnext = Some 3, arc_e = None, s0 = None, s1 = Some 3\<rparr>,
         \<lparr>arc_p = \<lparr>pt_x = 1, pt_y = 5\<rparr>, pprev = Some 0, pnext = Some 3,
            arc_e = Some \<lparr>ev_x = 2, ev_p = \<lparr>pt_x = - (1 / 2), pt_y = 3\<rparr>, ev_a = 1, ev_id = 0\<rparr>,
            s0 = Some 0, s1 = Some 1\<rparr>,
         \<lparr>arc_p = \<lparr>pt_x = 1, pt_y = 5\<rparr>, pprev = Some 3, pnext = None, arc_e = None, s0 = Some 2, s1 = None\<rparr>,
         \<lparr>arc_p = \<lparr>pt_x = 3 / 2, pt_y = 9 / 2\<rparr>, pprev = Some 0, pnext = Some 2, arc_e = None,
            s0 = Some 3, s1 = Some 2\<rparr>],
      points = \<lparr>queue = [], entry_finder = [], counter = 3\<rparr>,
      events = \<lparr>queue = [], entry_finder = [], counter = 1\<rparr>,
      invalid = {}, n_events = 1,
      largest_empty_circles =
        [(\<lparr>pt_x = - (1 / 2), pt_y = 3\<rparr>, 5 / 2,
          \<lparr>pt_x = 1, pt_y = 1\<rparr>, \<lparr>pt_x = 1, pt_y = 5\<rparr>, \<lparr>pt_x = 3 / 2, pt_y = 9 / 2\<rparr>)],
      max_circle_radius = 5 / 2,
      box_x0 = 0, box_y0 = 0, box_x1 = 10, box_y1 = 10\<rparr>"

definition three_sites_final :: voronoi where
  "three_sites_final =
     three_sites_swept
       \<lparr>output_segments :=
          [\<lparr>seg_start = \<lparr>pt_x = 0, pt_y = 3\<rparr>, seg_end = Some \<lparr>pt_x = - (1 / 2), pt_y = 3\<rparr>, seg_done = True\<rparr>,
           \<lparr>seg_start = \<lparr>pt_x = 1, pt_y = 9 / 2\<rparr>, seg_end = Some \<lparr>pt_x = - (1 / 2), pt_y = 3\<rparr>, seg_done = True\<rparr>,
           \<lparr>seg_start = \<lparr>pt_x = 1, pt_y = 9 / 2\<rparr>, seg_end = Some \<lparr>pt_x = 13 / 2, pt_y = 10\<rparr>, seg_done = True\<rparr>,
           \<lparr>seg_start = \<lparr>pt_x = - (1 / 2), pt_y = 3\<rparr>, seg_end = Some \<lparr>pt_x = 10, pt_y = 3 / 2\<rparr>, seg_done = True\<rparr>]\<rparr>"

lemma three_sites_initial: "Voronoi [(1, 1), (1, 5), (3 / 2, 9 / 2)] 10 10 = Ok three_sites_initial"
  by (simp add: engine_eval queue_eval three_sites_initial_def)

lemma three_sites_two_arcs:
  "rbind (process_site_event 10 three_sites_initial) (process_site_event 10) = Ok three_sites_two_arcs"
  by (simp add: three_sites_initial_def three_sites_two_arcs_def sweep_eval engine_eval queue_eval
      cong: rbind_weak_cong let_weak_cong)

lemma three_sites_third_site: "process_site_event 10 three_sites_two_arcs = Ok three_sites_beach"
  by (simp add: three_sites_two_arcs_def three_sites_beach_def sweep_eval engine_eval queue_eval
      cong: rbind_weak_cong let_weak_cong)

lemma three_sites_beach: "process_all_events 10 three_sites_initial = Ok three_sites_beach"
  by (simp add: three_sites_initial_def three_sites_beach_def sweep_eval engine_eval queue_eval
      cong: rbind_weak_cong let_weak_cong)

lemma three_sites_swept: "process_remaining_events 10 three_sites_beach = Ok three_sites_swept"
  by (simp add: three_sites_beach_def three_sites_swept_def sweep_eval engine_eval queue_eval
      cong: rbind_weak_cong let_weak_cong)

lemma clip_lower_edge:
  assumes "box_x0 s = 0" "box_y0 s = 0" "box_x1 s = 10" "box_y1 s = 10"
  shows "edge_end_point s \<lparr>pt_x = 1, pt_y = 1\<rparr> \<lparr>pt_x = 3 / 2, pt_y = 9 / 2\<rparr> \<lparr>pt_x = - (1 / 2), pt_y = 3\<rparr>
     = Ok (Some \<lparr>pt_x = 10, pt_y = 3 / 2\<rparr>)"
proof -
  define r where "r = sqrt (25 / 2)"
  have r2: "r * r = 25 / 2" by (simp add: r_def)
  have r_lo: "3 < r" unfolding r_def by (rule real_less_rsqrt) simp
  have r_hi: "r < 4" unfolding r_def by (rule real_less_lsqrt) simp_all
  have a: "35 / 4 < 35 / r" using r_lo r_hi by (simp add: field_simps)
  have b: "20 / r < 20 / 3" using r_lo r_hi by (simp add: field_simps)
  show ?thesis
    unfolding edge_end_point_def
    using r_lo r_hi r2 a b
    by (simp add: assms EPSILON_def fdiv_def Let_def Point_def r_def[symmetric] cong: rbind_weak_cong let_weak_cong)
qed

lemma clip_upper_edge:
  assumes "box_x0 s = 0" "box_y0 s = 0" "box_x1 s = 10" "box_y1 s = 10"
  shows "edge_end_point s \<lparr>pt_x = 3 / 2, pt_y = 9 / 2\<rparr> \<lparr>pt_x = 1, pt_y = 5\<rparr> \<lparr>pt_x = 1, pt_y = 9 / 2\<rparr>
     = Ok (Some \<lparr>pt_x = 13 / 2, pt_y = 10\<rparr>)"
proof -
  define r where "r = sqrt (1 / 2)"
  have r2: "r * r = 1 / 2" by (simp add: r_def)
  have r_lo: "7 / 10 < r" unfolding r_def by (rule real_less_rsqrt) (simp add: power2_eq_square)
  have r_hi: "r < 3 / 4" unfolding r_def by (rule real_less_lsqrt) (simp_all add: power2_eq_square)
  have a: "20 / 3 < 5 / r" using r_lo r_hi by (simp add: field_simps)
  have b: "5 / r < 50 / 7" using r_lo r_hi by (simp add: field_simps)
  have c: "80 / 3 < 20 / r" using r_lo r_hi by (simp add: field_simps)
  show ?thesis
    unfolding edge_end_point_def
    using r_lo r_hi r2 a b c
    by (simp add: assms EPSILON_def fdiv_def Let_def Point_def r_def[symmetric] cong: rbind_weak_cong let_weak_cong)
qed

lemma three_sites_final: "complete_unfinished_edges 10 three_sites_swept = Ok three_sites_final"
  by (simp add: three_sites_swept_def three_sites_final_def complete_unfinished_edges_def
      arc_at_def upd_seg_def finish_def eval_nat_numeral clip_lower_edge clip_upper_edge)

lemma three_sites_run: "run_voronoi 10 [(1, 1), (1, 5), (3 / 2, 9 / 2)] 10 10 = Ok three_sites_final"
proof -
  have "length (entry_finder (points three_sites_initial)) \<noteq> 2"
    by (simp add: three_sites_initial_def)
  then show ?thesis
    by (simp add: run_voronoi_def three_sites_initial generate_voronoi_diagram_def
        three_sites_beach three_sites_swept three_sites_final)
qed

lemma three_sites_edges:
  "voronoi_edges 10 [(1, 1), (1, 5), (3 / 2, 9 / 2)] 10 10 =
     Ok [(0, 3, - (1 / 2), 3), (1, 9 / 2, - (1 / 2), 3), (1, 9 / 2, 13 / 2, 10), (- (1 / 2), 3, 10, 3 / 2)]"
  by (simp add: voronoi_edges_def three_sites_run three_sites_final_def three_sites_swept_def
      get_voronoi_line_segments_def)


section \<open>Two sites\<close>

text \<open>
  C5. For the sites \<open>(0, 0)\<close> and \<open>(10, 0)\<close>, in this order, on the box 10 x 10,
  \<open>generate_voronoi_diagram\<close> is \<open>handle_two_points_case\<close> whatever the fuel, so no loop of
  the sweep is entered, and the output is the one finished edge from \<open>(5, -10)\<close> to
  \<open>(5, 10)\<close>: it is vertical and its midpoint is \<open>(5, 0)\<close>.
\<close>

theorem two_sites_bisector:
  "rbind (Voronoi [(0, 0), (10, 0)] 10 10) (generate_voronoi_diagram n) =
     rbind (Voronoi [(0, 0), (10, 0)] 10 10) handle_two_points_case \<and>
   rbind (run_voronoi n [(0, 0), (10, 0)] 10 10) (\<lambda>st. Ok (output_segments st)) =
     Ok [\<lparr>seg_start = \<lparr>pt_x = 5, pt_y = - 10\<rparr>, seg_end = Some \<lparr>pt_x = 5, pt_y = 10\<rparr>, seg_done = True\<rparr>] \<and>
   voronoi_edges n [(0, 0), (10, 0)] 10 10 = Ok [(5, - 10, 5, 10)] \<and>
   ((5 + 5) / 2, (- 10 + 10) / 2) = (5 :: real, 0 :: real)"
  by (simp add: engine_eval queue_eval)






section \<open>Fewer than two distinct sites\<close>

lemma ef_items_live:
  assumes "queue_inv q"
  shows "set (map fst (entry_finder q)) = set (live (queue q))"
proof -
  from assms have lv: "\<And>e i. e \<in> set (queue q) \<Longrightarrow> en_item e = Some i \<Longrightarrow> (i, en_count e) \<in> set (entry_finder q)"
    and he: "\<And>jc. jc \<in> set (entry_finder q) \<Longrightarrow> has_entry (queue q) jc"
    by (auto simp: queue_inv_def)
  show ?thesis
  proof (intro equalityI subsetI)
    fix i assume "i \<in> set (map fst (entry_finder q))"
    then obtain c where "(i, c) \<in> set (entry_finder q)" by auto
    from he[OF this] show "i \<in> set (live (queue q))" by (auto simp: has_entry_def set_live)
  next
    fix i assume "i \<in> set (live (queue q))"
    then obtain e where "e \<in> set (queue q)" "en_item e = Some i" by (auto simp: set_live)
    from lv[OF this] show "i \<in> set (map fst (entry_finder q))" by force
  qed
qed

lemma length_ef_live:
  assumes "queue_inv q"
  shows "length (entry_finder q) = length (live (queue q))"
proof -
  from assms have "distinct (map (key_of \<circ> fst) (entry_finder q))" by (simp add: queue_inv_def)
  then have "distinct (map key_of (map fst (entry_finder q)))" by simp
  then have d1: "distinct (map fst (entry_finder q))"
    using distinct_map[of key_of "map fst (entry_finder q)"] by blast
  have d2: "distinct (live (queue q))"
    using distinct_live_keys[OF assms] distinct_map[of key_of "live (queue q)"] by blast
  have "length (entry_finder q) = card (set (map fst (entry_finder q)))"
    using distinct_card[OF d1] by simp
  also have "\<dots> = card (set (live (queue q)))" by (simp only: ef_items_live[OF assms])
  also have "\<dots> = length (live (queue q))" by (rule distinct_card[OF d2])
  finally show ?thesis .
qed

lemma complete_loop_single:
  "pnext (arc_at s i) = None \<Longrightarrow> complete_loop (Suc n) (Some i) s = Ok s"
  by simp

lemma generate_no_site:
  assumes "entry_finder (points s) = []" "entry_finder (events s) = []" "parabolicArc s = None"
  shows "generate_voronoi_diagram (Suc n) s = Ok s"
  using assms by (simp add: generate_voronoi_diagram_def empty_q_def complete_unfinished_edges_def)

lemma generate_one_site:
  assumes inv: "queue_inv (points s)" and one: "live (queue (points s)) = [PointItem p]"
    and ev: "entry_finder (events s) = []" and hd: "parabolicArc s = None"
  shows "\<exists>st. generate_voronoi_diagram (Suc (Suc n)) s = Ok st \<and>
           output_segments st = output_segments s \<and>
           largest_empty_circles st = largest_empty_circles s"
proof -
  from length_ef_live[OF inv] one have len: "length (entry_finder (points s)) = 1" by simp
  then have ne: "entry_finder (points s) \<noteq> []" by auto
  from pop_spec[OF inv] one obtain q' where q': "pop (points s) = Inr (Some (PointItem p), q')"
    "queue_inv q'" "live (queue q') = []"
    by auto
  from length_ef_live[OF q'(2)] q'(3) have e': "entry_finder q' = []" by simp
  let ?st = "(alloc (ParabolicArc p None None) (s\<lparr>points := q'\<rparr>))\<lparr>parabolicArc := Some (length (arcs s))\<rparr>"
  have site: "process_site_event (Suc n) s = Ok ?st"
    using q'(1) hd by (simp add: process_site_event_def add_parabolic_parabolicArc_def)
  have all: "process_all_events (Suc (Suc n)) s = Ok ?st"
    using ne ev site e' by (simp add: empty_q_def alloc_def)
  have rem: "process_remaining_events (Suc (Suc n)) ?st = Ok ?st"
    using ev by (simp add: empty_q_def alloc_def)
  have "pnext (arc_at ?st (length (arcs s))) = None"
    by (simp add: arc_at_def alloc_def ParabolicArc_def)
  then have "complete_unfinished_edges (Suc (Suc n)) ?st = Ok ?st"
    by (simp add: complete_unfinished_edges_def)
  with all rem len show ?thesis
    by (simp add: generate_voronoi_diagram_def alloc_def)
qed



lemma key_of_is_PointKey: "key_of i = PointKey u v \<Longrightarrow> i = PointItem \<lparr>pt_x = u, pt_y = v\<rparr>"
  by (cases i) auto


text \<open>
  C6. When the input holds fewer than two distinct points after rounding, the
  construction with fuel 2 or more raises nothing, ends, and both outputs are empty.
\<close>

theorem fewer_than_two_sites:
  assumes "card ((\<lambda>(a, b). Point a b) ` set ps) < 2"
  shows "voronoi_edges (Suc (Suc n)) ps w h = Ok [] \<and> voronoi_circles (Suc (Suc n)) ps w h = Ok []"
proof -
  have inv0: "queue_inv EventPriorityQueue"
    by (rule reachable_inv) (rule reachable.init)
  from add_points_loop_spec[OF inv0, of ps] obtain q where
    q: "add_points_loop ps EventPriorityQueue = Inr q" "queue_inv q"
    "key_of ` set (live (queue q)) = (\<lambda>(a, b). key_of (PointItem (Point a b))) ` set ps"
    by (auto simp: EventPriorityQueue_def)
  let ?s = "(setup_bounds w h initialize_structures)\<lparr>points := q\<rparr>"
  have init: "Voronoi ps w h = Ok ?s"
    using q(1) by (simp add: Voronoi_def add_points_def setup_bounds_def initialize_structures_def)
  have "(\<lambda>(a, b). key_of (PointItem (Point a b))) ` set ps =
        (\<lambda>p. key_of (PointItem p)) ` ((\<lambda>(a, b). Point a b) ` set ps)"
    by (auto simp: image_iff)
  moreover have "inj (\<lambda>p. key_of (PointItem p))" by (rule injI) simp
  ultimately have "card (key_of ` set (live (queue q))) = card ((\<lambda>(a, b). Point a b) ` set ps)"
    using q(3) card_image[of "\<lambda>p. key_of (PointItem p)" "(\<lambda>(a, b). Point a b) ` set ps"]
      inj_on_subset[of "\<lambda>p. key_of (PointItem p)" UNIV "(\<lambda>(a, b). Point a b) ` set ps"]
    by simp
  moreover have "card (key_of ` set (live (queue q))) = length (live (queue q))"
    using distinct_card[OF distinct_live_keys[OF q(2)]] by simp
  ultimately have short: "length (live (queue q)) < 2" using assms by simp
  have facts: "queue_inv (points ?s)" "entry_finder (events ?s) = []" "parabolicArc ?s = None"
    "output_segments ?s = []" "largest_empty_circles ?s = []"
    using q(2) by (simp_all add: setup_bounds_def initialize_structures_def EventPriorityQueue_def)
  have "\<exists>st. generate_voronoi_diagram (Suc (Suc n)) ?s = Ok st \<and>
           output_segments st = [] \<and> largest_empty_circles st = []"
  proof (cases "live (queue q)")
    case Nil
    with length_ef_live[OF q(2)] have "entry_finder (points ?s) = []" by simp
    from generate_no_site[OF this facts(2,3)] facts(4,5) show ?thesis by simp
  next
    case (Cons i rest)
    with short have rest: "rest = []" by simp
    have "key_of i \<in> (\<lambda>(a, b). key_of (PointItem (Point a b))) ` set ps"
      using q(3) Cons by auto
    then obtain u v where "key_of i = PointKey u v" by auto
    from key_of_is_PointKey[OF this] obtain p where "i = PointItem p" by blast
    with Cons rest have "live (queue (points ?s)) = [PointItem p]" by simp
    from generate_one_site[OF facts(1) this facts(2,3)] facts(4,5) show ?thesis by simp
  qed
  with init show ?thesis
    by (auto simp: voronoi_edges_def voronoi_circles_def run_voronoi_def
        get_voronoi_line_segments_def get_largest_empty_circles_def)
qed

theorem fewer_than_two_sites_witness:
  "voronoi_edges (Suc (Suc 0)) [(1, 1), (1, 1)] 10 10 = Ok [] \<and>
   voronoi_circles (Suc (Suc 0)) [(1, 1), (1, 1)] 10 10 = Ok []"
  using fewer_than_two_sites [of "[(1, 1), (1, 1)]" 0 10 10]
  by simp

section \<open>The running maximum\<close>

lemma rbind_Ok: "rbind m f = Ok v \<longleftrightarrow> (\<exists>u. m = Ok u \<and> f u = Ok v)"
  by (cases m) auto

lemma max_store_simps [simp]:
  "max_circle_radius (upd_arc i f s) = max_circle_radius s"
  "max_circle_radius (alloc a s) = max_circle_radius s"
  "max_circle_radius (upd_seg k g s) = max_circle_radius s"
  "max_circle_radius (append_seg sg s) = max_circle_radius s"
  by (simp_all add: upd_arc_def alloc_def upd_seg_def append_seg_def)

lemma record_circle_mono: "max_circle_radius s \<le> max_circle_radius (record_circle ctr r sites s)"
  by (simp add: record_circle_def)

lemma check_potential_mono:
  assumes "check_potential_circle_event i x s = Ok s'"
  shows "max_circle_radius s \<le> max_circle_radius s'"
  using assms
  unfolding check_potential_circle_event_def Let_def
  by (auto simp: rbind_Ok record_circle_def split: option.splits if_splits prod.splits)


lemma three_checks_mono:
  assumes "rbind (check_potential_circle_event a x st5) (\<lambda>st6.
             rbind (check_potential_circle_event b x st6) (\<lambda>st7.
               check_potential_circle_event c x st7)) = Ok s'"
  shows "max_circle_radius st5 \<le> max_circle_radius s'"
proof -
  from assms obtain st6 st7 where
    c: "check_potential_circle_event a x st5 = Ok st6"
      "check_potential_circle_event b x st6 = Ok st7"
      "check_potential_circle_event c x st7 = Ok s'"
    by (auto simp: rbind_Ok)
  from c[THEN check_potential_mono] show ?thesis by linarith
qed

lemma case_option_const: "(case x of None \<Rightarrow> c | Some y \<Rightarrow> c) = c"
  by (cases x) simp_all

lemmas max_distrib = option.case_distrib[of max_circle_radius] if_distrib[of max_circle_radius]
  case_option_const

lemma split_arc_mono:
  assumes "split_arc p i z s = Ok s'"
  shows "max_circle_radius s \<le> max_circle_radius s'"
  using assms unfolding split_arc_def Let_def rbind_Ok
  apply (elim exE conjE)
  apply (drule check_potential_mono)+
  apply (simp add: max_distrib cong: option.case_cong if_cong)
  done

lemma find_and_split_mono:
  "find_and_split n p io s = Ok (Some s') \<Longrightarrow> max_circle_radius s \<le> max_circle_radius s'"
proof (induction n arbitrary: io)
  case 0
  then show ?case by simp
next
  case (Suc n)
  show ?case
  proof (cases io)
    case None
    with Suc.prems show ?thesis by simp
  next
    case (Some i)
    with Suc.prems obtain flag where
      r: "(case flag of Some z \<Rightarrow> rbind (split_arc p i z s) (\<lambda>st. Ok (Some st))
              | None \<Rightarrow> find_and_split n p (pnext (arc_at s i)) s) = Ok (Some s')"
      by (auto simp: rbind_Ok)
    show ?thesis
    proof (cases flag)
      case None
      with r Suc.IH show ?thesis by simp
    next
      case (Some z)
      with r have "split_arc p i z s = Ok s'" by (auto simp: rbind_Ok)
      then show ?thesis by (rule split_arc_mono)
    qed
  qed
qed

lemma add_arc_mono:
  assumes "add_parabolic_parabolicArc n p s = Ok s'"
  shows "max_circle_radius s \<le> max_circle_radius s'"
proof (cases "parabolicArc s")
  case None
  with assms show ?thesis by (auto simp: add_parabolic_parabolicArc_def)
next
  case (Some h)
  with assms obtain r where r: "find_and_split n p (Some h) s = Ok r"
    and c: "(case r of Some st \<Rightarrow> Ok st | None \<Rightarrow> rbind (last_arc n h s) (\<lambda>i. Ok (append_arc p i s))) = Ok s'"
    by (auto simp: add_parabolic_parabolicArc_def rbind_Ok)
  show ?thesis
  proof (cases r)
    case None
    with c show ?thesis by (auto simp: rbind_Ok append_arc_def Let_def)
  next
    case (Some st)
    with c r find_and_split_mono show ?thesis by auto
  qed
qed

lemma process_site_event_mono:
  assumes "process_site_event n s = Ok s'"
  shows "max_circle_radius s \<le> max_circle_radius s'"
proof -
  from assms obtain r q where
    c: "(case r of Some (PointItem p) \<Rightarrow> add_parabolic_parabolicArc n p (s\<lparr>points := q\<rparr>)
         | _ \<Rightarrow> Raise AttributeError) = Ok s'"
    by (auto simp: process_site_event_def rbind_Ok)
  then obtain p where "add_parabolic_parabolicArc n p (s\<lparr>points := q\<rparr>) = Ok s'"
    by (cases r) (auto split: item.splits)
  from add_arc_mono[OF this] show ?thesis by simp
qed

lemma two_checks_mono:
  assumes "rbind (case pprev (arc_at st5 a) of
                    Some pv \<Rightarrow> check_potential_circle_event pv x st5
                  | None \<Rightarrow> Ok st5) (\<lambda>st6.
             case pnext (arc_at st6 a) of
               Some nx \<Rightarrow> check_potential_circle_event nx x st6
             | None \<Rightarrow> Ok st6) = Ok s'"
  shows "max_circle_radius st5 \<le> max_circle_radius s'"
proof -
  from assms obtain st6 where
    a: "(case pprev (arc_at st5 a) of
           Some pv \<Rightarrow> check_potential_circle_event pv x st5
         | None \<Rightarrow> Ok st5) = Ok st6"
    and b: "(case pnext (arc_at st6 a) of
               Some nx \<Rightarrow> check_potential_circle_event nx x st6
             | None \<Rightarrow> Ok st6) = Ok s'"
    by (auto simp: rbind_Ok)
  from a have "max_circle_radius st5 \<le> max_circle_radius st6"
    by (auto split: option.splits dest: check_potential_mono)
  moreover from b have "max_circle_radius st6 \<le> max_circle_radius s'"
    by (auto split: option.splits dest: check_potential_mono)
  ultimately show ?thesis by linarith
qed

lemma collapse_arc_mono:
  assumes "collapse_arc ev s = Ok s'"
  shows "max_circle_radius s \<le> max_circle_radius s'"
  using assms unfolding collapse_arc_def Let_def
  apply (drule_tac two_checks_mono)
  apply (simp add: max_distrib cong: option.case_cong if_cong)
  done

lemma process_circle_event_mono:
  assumes "process_circle_event s = Ok s'"
  shows "max_circle_radius s \<le> max_circle_radius s'"
proof -
  from assms obtain r q where
    c: "(case r of
         Some (EventItem ev) \<Rightarrow>
           if ev_id ev \<in> invalid s then Ok (s\<lparr>events := q\<rparr>) else collapse_arc ev (s\<lparr>events := q\<rparr>)
       | _ \<Rightarrow> Raise AttributeError) = Ok s'"
    by (auto simp: process_circle_event_def rbind_Ok)
  then obtain ev where ev: "r = Some (EventItem ev)"
    by (cases r) (auto split: item.splits)
  show ?thesis
  proof (cases "ev_id ev \<in> invalid s")
    case True
    with c ev show ?thesis by auto
  next
    case False
    with c ev have "collapse_arc ev (s\<lparr>events := q\<rparr>) = Ok s'" by simp
    from collapse_arc_mono[OF this] show ?thesis by simp
  qed
qed

lemma process_all_events_mono:
  "process_all_events n s = Ok s' \<Longrightarrow> max_circle_radius s \<le> max_circle_radius s'"
proof (induction n arbitrary: s)
  case 0
  then show ?case by simp
next
  case (Suc n)
  show ?case
  proof (cases "empty_q (points s)")
    case True
    with Suc.prems show ?thesis by simp
  next
    case False
    with Suc.prems obtain st where
      st: "(if \<not> empty_q (events s) then
             rbind (lift (top_q (events s))) (\<lambda>(te, qe).
               case te of
                 None \<Rightarrow> Raise AttributeError
               | Some ie \<Rightarrow>
                   rbind (lift (top_q (points s))) (\<lambda>(tp, qp).
                     case tp of
                       None \<Rightarrow> Raise AttributeError
                     | Some ip \<Rightarrow>
                         if item_x ie \<le> item_x ip
                         then process_circle_event (s\<lparr>events := qe, points := qp\<rparr>)
                         else process_site_event n (s\<lparr>events := qe, points := qp\<rparr>)))
           else process_site_event n s) = Ok st"
      and rest: "process_all_events n st = Ok s'"
      by (auto simp: rbind_Ok)
    have "max_circle_radius s \<le> max_circle_radius st"
    proof (cases "empty_q (events s)")
      case True
      with st show ?thesis by (auto dest: process_site_event_mono)
    next
      case False
      with st obtain qe qp where
        "process_circle_event (s\<lparr>events := qe, points := qp\<rparr>) = Ok st \<or>
         process_site_event n (s\<lparr>events := qe, points := qp\<rparr>) = Ok st"
        by (auto simp: rbind_Ok split: option.splits if_splits)
      then show ?thesis
        by (auto dest: process_site_event_mono process_circle_event_mono)
    qed
    with Suc.IH[OF rest] show ?thesis by linarith
  qed
qed

lemma process_remaining_events_mono:
  "process_remaining_events n s = Ok s' \<Longrightarrow> max_circle_radius s \<le> max_circle_radius s'"
proof (induction n arbitrary: s)
  case 0
  then show ?case by simp
next
  case (Suc n)
  show ?case
  proof (cases "empty_q (events s)")
    case True
    with Suc.prems show ?thesis by simp
  next
    case False
    with Suc.prems obtain st where "process_circle_event s = Ok st" "process_remaining_events n st = Ok s'"
      by (auto simp: rbind_Ok)
    with Suc.IH[of st] process_circle_event_mono[of s st] show ?thesis by linarith
  qed
qed

lemma complete_loop_max:
  "complete_loop n io s = Ok s' \<Longrightarrow> max_circle_radius s' = max_circle_radius s"
proof (induction n io s rule: complete_loop.induct)
  case (1 io s)
  then show ?case by simp
next
  case (2 n s)
  then show ?case by simp
next
  case (3 n i s)
  show ?case
  proof (cases "pnext (arc_at s i)")
    case None
    with "3.prems" show ?thesis by simp
  next
    case (Some nx)
    let ?st = "(case s1 (arc_at s i) of
               None \<Rightarrow> s
             | Some k \<Rightarrow>
                 (case edge_end_point s (arc_p (arc_at s i)) (arc_p (arc_at s nx))
                         (seg_start (output_segments s ! k)) of
                    Ok (Some p) \<Rightarrow> upd_seg k (finish p) s
                  | _ \<Rightarrow> s))"
    from "3.prems" Some have "complete_loop n (Some nx) ?st = Ok s'" by simp
    from "3.IH"[OF Some this] have "max_circle_radius s' = max_circle_radius ?st" .
    also have "\<dots> = max_circle_radius s"
      by (simp split: option.splits result.splits)
    finally show ?thesis .
  qed
qed

lemma handle_two_points_case_max:
  "handle_two_points_case s = Ok s' \<Longrightarrow> max_circle_radius s' = max_circle_radius s"
  unfolding handle_two_points_case_def Let_def
  by (auto simp: rbind_Ok split: if_splits)

lemma generate_mono:
  assumes "generate_voronoi_diagram n s = Ok s'"
  shows "max_circle_radius s \<le> max_circle_radius s'"
proof (cases "length (entry_finder (points s)) = 2")
  case True
  with assms handle_two_points_case_max[of s s'] show ?thesis
    by (simp add: generate_voronoi_diagram_def)
next
  case False
  with assms obtain st1 st2 where "process_all_events n s = Ok st1"
    "process_remaining_events n st1 = Ok st2" "complete_loop n (parabolicArc st2) st2 = Ok s'"
    by (auto simp: generate_voronoi_diagram_def complete_unfinished_edges_def rbind_Ok)
  with process_all_events_mono[of n s st1] process_remaining_events_mono[of n st1 st2]
    complete_loop_max[of n "parabolicArc st2" st2 s']
  show ?thesis by linarith
qed

lemma Voronoi_max:
  assumes "Voronoi ps w h = Ok st0"
  shows "max_circle_radius st0 = 0"
  using assms
  by (auto simp: Voronoi_def add_points_def rbind_Ok setup_bounds_def initialize_structures_def)

text \<open>
  A step of a construction is a call of one of the methods that process events, or of
  the method that writes the maximum, returning without an exception.
\<close>

inductive construction_step :: "voronoi \<Rightarrow> voronoi \<Rightarrow> bool" where
  check: "check_potential_circle_event i x s = Ok s' \<Longrightarrow> construction_step s s'"
| site: "process_site_event n s = Ok s' \<Longrightarrow> construction_step s s'"
| circle: "process_circle_event s = Ok s' \<Longrightarrow> construction_step s s'"
| sweep: "process_all_events n s = Ok s' \<Longrightarrow> construction_step s s'"
| drain: "process_remaining_events n s = Ok s' \<Longrightarrow> construction_step s s'"
| clip: "complete_unfinished_edges n s = Ok s' \<Longrightarrow> construction_step s s'"
| two: "handle_two_points_case s = Ok s' \<Longrightarrow> construction_step s s'"
| whole: "generate_voronoi_diagram n s = Ok s' \<Longrightarrow> construction_step s s'"

lemma construction_step_mono:
  "construction_step s s' \<Longrightarrow> max_circle_radius s \<le> max_circle_radius s'"
proof (induction rule: construction_step.induct)
  case (check i x s s')
  then show ?case by (rule check_potential_mono)
next
  case (site n s s')
  then show ?case by (rule process_site_event_mono)
next
  case (circle s s')
  then show ?case by (rule process_circle_event_mono)
next
  case (sweep n s s')
  then show ?case by (rule process_all_events_mono)
next
  case (drain n s s')
  then show ?case by (rule process_remaining_events_mono)
next
  case (clip n s s')
  then show ?case using complete_loop_max[of n "parabolicArc s" s s']
    by (simp add: complete_unfinished_edges_def)
next
  case (two s s')
  then show ?case using handle_two_points_case_max[of s s'] by simp
next
  case (whole n s s')
  then show ?case by (rule generate_mono)
qed

text \<open>
  C9. The state built by the constructor has the maximum 0, and between any two states
  of a construction, the later reached from the earlier by steps, the maximum does not
  decrease: every step leaves it as it is or makes it larger.
\<close>

theorem max_circle_radius_nondecreasing:
  assumes "Voronoi ps w h = Ok st0"
    and "construction_step\<^sup>*\<^sup>* st0 s" and "construction_step\<^sup>*\<^sup>* s s'"
  shows "max_circle_radius st0 = 0 \<and> max_circle_radius s \<le> max_circle_radius s'"
proof
  show "max_circle_radius st0 = 0" using assms(1) by (rule Voronoi_max)
  show "max_circle_radius s \<le> max_circle_radius s'"
    using assms(3)
  proof (induction rule: rtranclp_induct)
    case base
    show ?case by simp
  next
    case (step t u)
    with construction_step_mono[of t u] show ?case by linarith
  qed
qed

text \<open>
  In the run on the three sites \<open>(1, 1)\<close>, \<open>(1, 5)\<close>, \<open>(1.5, 4.5)\<close> the third site event
  calls \<^verbatim>\<open>_check_potential_circle_event\<close> on the arc of \<open>(1, 5)\<close>, which records the circle
  of centre \<open>(-0.5, 3)\<close> and writes the maximum: it goes from 0 to 2.5.
\<close>

theorem max_circle_radius_nondecreasing_witness:
  "Voronoi [(1, 1), (1, 5), (3 / 2, 9 / 2)] 10 10 = Ok three_sites_initial \<and>
   process_site_event 10 three_sites_two_arcs = Ok three_sites_beach \<and>
   max_circle_radius three_sites_initial = 0 \<and>
   max_circle_radius three_sites_two_arcs = 0 \<and>
   max_circle_radius three_sites_beach = 5 / 2 \<and>
   max_circle_radius three_sites_two_arcs \<le> max_circle_radius three_sites_beach"
proof -
  from three_sites_two_arcs obtain u where
    u: "process_site_event 10 three_sites_initial = Ok u"
      "process_site_event 10 u = Ok three_sites_two_arcs"
    unfolding rbind_Ok by blast
  have a: "construction_step three_sites_initial u"
    using u(1) by (rule construction_step.site)
  have b: "construction_step u three_sites_two_arcs"
    using u(2) by (rule construction_step.site)
  have 1: "construction_step\<^sup>*\<^sup>* three_sites_initial three_sites_two_arcs"
    using a b by (rule converse_rtranclp_into_rtranclp[OF _ r_into_rtranclp])
  have "construction_step three_sites_two_arcs three_sites_beach"
    using three_sites_third_site by (rule construction_step.site)
  then have 2: "construction_step\<^sup>*\<^sup>* three_sites_two_arcs three_sites_beach"
    by (rule r_into_rtranclp)
  from max_circle_radius_nondecreasing [OF three_sites_initial 1 2]
  have "max_circle_radius three_sites_initial = 0 \<and>
        max_circle_radius three_sites_two_arcs \<le> max_circle_radius three_sites_beach" .
  then show ?thesis
    using three_sites_initial three_sites_third_site
    by (simp add: three_sites_two_arcs_def three_sites_beach_def)
qed

end
